theory Spec2Isabelle
  imports Complex_Main "HOL-Library.Char_ord" "HOL-Library.List_Lexorder"
    "HOL-Library.Sublist" "HOL-Library.AList"
begin

section \<open>JavaScript values\<close>

subsection \<open>Strings and optional fields\<close>

text \<open>
  A JavaScript string is a \<^typ>\<open>string\<close>; \<open><\<close> and \<open>>\<close> on strings compare code units
  lexicographically, which is the order of \<open>HOL-Library.List_Lexorder\<close> over
  \<open>HOL-Library.Char_ord\<close>. A field that may be \<open>undefined\<close> or \<open>null\<close> is an
  \<^typ>\<open>'a option\<close>. The empty string is falsy, so \<open>if (s)\<close>, \<open>!s\<close> and \<open>s || d\<close> on an
  optional string test \<open>truthy\<close>.
\<close>

definition truthy :: "string option \<Rightarrow> bool" where
  "truthy s = (case s of None \<Rightarrow> False | Some t \<Rightarrow> t \<noteq> [])"

text \<open>\<open>s || null\<close>: a falsy string becomes \<open>null\<close>.\<close>

definition or_null :: "string option \<Rightarrow> string option" where
  "or_null s = (if truthy s then s else None)"

text \<open>\<open>n || 0\<close> on an optional count.\<close>

definition or0 :: "nat option \<Rightarrow> nat" where
  "or0 n = (case n of None \<Rightarrow> 0 | Some k \<Rightarrow> k)"

subsection \<open>Numbers\<close>

text \<open>
  A JavaScript number is an IEEE-754 binary64 value: a \<open>double\<close>, a rational together
  with operations that round the exact result to 53 significant bits, to nearest, ties to
  even. The token counts of one request are non-negative integers and are kept as
  \<^typ>\<open>nat\<close>; every sum that the program computes, of token counts as of costs, is a sum
  of doubles, rounded after each addition. A count of requests is at most the length of
  an array, which is below \<open>2^32\<close>, so counting is exact and a count is a \<^typ>\<open>nat\<close>. The
  exponent range is not bounded, so the operations agree with IEEE-754 as long as no
  result reaches \<open>2^1024\<close> in magnitude or falls below \<open>2^-1022\<close>; infinities, NaN and the
  sign of zero are not represented.
\<close>

type_synonym double = rat

text \<open>\<open>lg n\<close> is the position of the highest set bit of \<open>n\<close>, \<open>clg n\<close> the least \<open>k\<close>
  with \<open>n \<le> 2^k\<close>.\<close>

fun lg :: "nat \<Rightarrow> nat" where
  "lg n = (if n < 2 then 0 else Suc (lg (n div 2)))"

declare lg.simps [simp del]

definition clg :: "nat \<Rightarrow> nat" where
  "clg n = (if n \<le> 1 then 0 else Suc (lg (n - 1)))"

text \<open>The binary exponent of a positive rational: \<open>2^e \<le> x < 2^(e+1)\<close>.\<close>

definition expo :: "rat \<Rightarrow> int" where
  "expo x = (if 1 \<le> x then int (lg (nat \<lfloor>x\<rfloor>)) else - int (clg (nat \<lceil>1 / x\<rceil>)))"

definition round_even :: "rat \<Rightarrow> int" where
  "round_even q =
     (let f = \<lfloor>q\<rfloor>; d = q - of_int f
      in if d < 1 / 2 then f else if 1 / 2 < d then f + 1 else if even f then f else f + 1)"

text \<open>Rounding to binary64: the unit in the last place of \<open>x\<close> is \<open>2^(e-52)\<close>.\<close>

definition fl :: "rat \<Rightarrow> double" where
  "fl x = (if x = 0 then 0
           else let u = 2 powi (expo \<bar>x\<bar> - 52)
                in sgn x * of_int (round_even (\<bar>x\<bar> / u)) * u)"

definition fadd :: "double \<Rightarrow> double \<Rightarrow> double" where
  "fadd a b = fl (a + b)"

definition fsub :: "double \<Rightarrow> double \<Rightarrow> double" where
  "fsub a b = fl (a - b)"

definition fmul :: "double \<Rightarrow> double \<Rightarrow> double" where
  "fmul a b = fl (a * b)"

definition fdiv :: "double \<Rightarrow> double \<Rightarrow> double" where
  "fdiv a b = fl (a / b)"

section \<open>Usage events\<close>

text \<open>The object literal pushed by \<open>parseJSONL\<close>, field by field.\<close>

record event =
  provider :: string
  model :: string
  session_id :: "string option"
  project_path :: "string option"
  request_id :: string
  occurred_at :: string
  input_tokens :: nat
  output_tokens :: nat
  cache_creation_tokens :: nat
  cache_read_tokens :: nat
  cost_usd :: double
  source :: string
  prompt_text :: "string option"

section \<open>Date range filter\<close>

text \<open>
  \<open>filterByDate(events, from, to)\<close>: with both bounds falsy the input is returned as it
  is; otherwise \<open>hi\<close> is \<open>to + 'T23:59:59'\<close> (or \<open>null\<close>) and an event is kept unless it
  lies below \<open>from\<close> or above \<open>hi\<close>.
\<close>

definition filterByDate :: "event list \<Rightarrow> string option \<Rightarrow> string option \<Rightarrow> event list" where
  "filterByDate events from to =
     (if \<not> truthy from \<and> \<not> truthy to then events
      else let hi = (if truthy to then Some (the to @ ''T23:59:59'') else None)
           in filter (\<lambda>e.
                if truthy from \<and> occurred_at e < the from then False
                else if truthy hi \<and> occurred_at e > the hi then False
                else True) events)"

text \<open>An event stamped half a second before midnight of 3 January 2024.\<close>

definition late_event :: event where
  "late_event = \<lparr> provider = ''anthropic'', model = ''claude-opus-4-6'',
     session_id = Some ''s1'', project_path = None, request_id = ''r1'',
     occurred_at = ''2024-01-03T23:59:59.500Z'',
     input_tokens = 1, output_tokens = 1, cache_creation_tokens = 0, cache_read_tokens = 0,
     cost_usd = 0, source = ''claude-code'', prompt_text = None \<rparr>"

section \<open>Pricing\<close>

text \<open>
  One entry of the \<open>PRICING\<close> table (fields \<open>prefix\<close>, \<open>provider\<close>, \<open>input\<close>,
  \<open>output\<close>, \<open>cache_write\<close>, \<open>cache_read\<close>, here with the prefix \<open>p_\<close>). The two cache
  rates may be \<open>null\<close>. A decimal literal of the source denotes the binary64 nearest to
  it, written \<open>fl 6.25\<close>.
\<close>

record pricing =
  p_prefix :: string
  p_provider :: string
  p_input :: double
  p_output :: double
  p_cache_write :: "double option"
  p_cache_read :: "double option"

definition price ::
  "string \<Rightarrow> string \<Rightarrow> rat \<Rightarrow> rat \<Rightarrow> rat option \<Rightarrow> rat option \<Rightarrow> pricing" where
  "price pre prov i out cw cr =
     \<lparr> p_prefix = pre, p_provider = prov, p_input = fl i, p_output = fl out,
       p_cache_write = map_option fl cw, p_cache_read = map_option fl cr \<rparr>"

definition PRICING :: "pricing list" where
  "PRICING =
    [ price ''claude-opus-4-6'' ''anthropic'' 5.00 25.00 (Some 6.25) (Some 0.50),
      price ''claude-sonnet-4-6'' ''anthropic'' 3.00 15.00 (Some 3.75) (Some 0.30),
      price ''claude-haiku-4-6'' ''anthropic'' 1.00 5.00 (Some 1.25) (Some 0.10),
      price ''claude-opus-4-5'' ''anthropic'' 5.00 25.00 (Some 6.25) (Some 0.50),
      price ''claude-sonnet-4-5'' ''anthropic'' 3.00 15.00 (Some 3.75) (Some 0.30),
      price ''claude-haiku-4-5'' ''anthropic'' 1.00 5.00 (Some 1.25) (Some 0.10),
      price ''claude-opus-4-1'' ''anthropic'' 15.00 75.00 (Some 18.75) (Some 1.50),
      price ''claude-opus-4'' ''anthropic'' 15.00 75.00 (Some 18.75) (Some 1.50),
      price ''claude-opus-3'' ''anthropic'' 15.00 75.00 (Some 18.75) (Some 1.50),
      price ''claude-sonnet-3-7'' ''anthropic'' 3.00 15.00 (Some 3.75) (Some 0.30),
      price ''claude-sonnet-3-5'' ''anthropic'' 3.00 15.00 (Some 3.75) (Some 0.30),
      price ''claude-sonnet-3'' ''anthropic'' 3.00 15.00 (Some 3.75) (Some 0.30),
      price ''claude-haiku-3-5'' ''anthropic'' 0.80 4.00 (Some 1.00) (Some 0.08),
      price ''claude-haiku-3'' ''anthropic'' 0.25 1.25 (Some 0.30) (Some 0.03),
      price ''gpt-4o-mini'' ''openai'' 0.15 0.60 None (Some 0.075),
      price ''gpt-4o'' ''openai'' 2.50 10.00 None (Some 1.25),
      price ''gpt-4-turbo'' ''openai'' 10.00 30.00 None None,
      price ''gpt-4'' ''openai'' 30.00 60.00 None None,
      price ''gpt-3.5-turbo'' ''openai'' 0.50 1.50 None None,
      price ''o4-mini'' ''openai'' 1.10 4.40 None (Some 0.275),
      price ''o3-mini'' ''openai'' 1.10 4.40 None (Some 0.55),
      price ''o3'' ''openai'' 10.00 40.00 None (Some 2.50),
      price ''o1-mini'' ''openai'' 3.00 12.00 None (Some 1.50),
      price ''o1'' ''openai'' 15.00 60.00 None (Some 7.50) ]"

subsection \<open>Model-name normalisation\<close>

text \<open>
  A string is a list of code units below 256. \<open>toLowerCase\<close> maps the code units with
  a lower-case counterpart, \<open>A\<close> to \<open>Z\<close> (65 to 90) and the capital letters of
  the Latin-1 block (192 to 222, except the multiplication sign 215), to the code unit 32
  places higher, and leaves every other code unit as it is.
\<close>

definition lower_char :: "char \<Rightarrow> char" where
  "lower_char c =
     (let n = (of_char c :: nat)
      in if (65 \<le> n \<and> n \<le> 90) \<or> (192 \<le> n \<and> n \<le> 222 \<and> n \<noteq> 215) then char_of (n + 32)
         else c)"

definition toLowerCase :: "string \<Rightarrow> string" where
  "toLowerCase s = map lower_char s"

text \<open>The class \<open>\d\<close>.\<close>

definition is_digit :: "char \<Rightarrow> bool" where
  "is_digit c = (CHR ''0'' \<le> c \<and> c \<le> CHR ''9'')"

text \<open>
  The bodies of the two regular expressions, \<open>-\d{8}\<close> and \<open>-\d{4}-\d{2}-\d{2}\<close>, as
  predicates on a whole string.
\<close>

definition date8 :: "string \<Rightarrow> bool" where
  "date8 t = (length t = 9 \<and> take 1 t = ''-'' \<and> list_all is_digit (drop 1 t))"

definition date_dashed :: "string \<Rightarrow> bool" where
  "date_dashed t =
     (length t = 11 \<and> take 1 t = ''-'' \<and> list_all is_digit (take 4 (drop 1 t)) \<and>
      take 1 (drop 5 t) = ''-'' \<and> list_all is_digit (take 2 (drop 6 t)) \<and>
      take 1 (drop 8 t) = ''-'' \<and> list_all is_digit (drop 9 t))"

text \<open>
  \<open>s.replace(/pat$/, '')\<close> for a pattern of fixed length \<open>n\<close>: the pattern is anchored
  at the end of the input, so the only possible match is the last \<open>n\<close> code units, and
  the match is removed.
\<close>

definition strip_suffix :: "(string \<Rightarrow> bool) \<Rightarrow> nat \<Rightarrow> string \<Rightarrow> string" where
  "strip_suffix pat n s =
     (if n \<le> length s \<and> pat (drop (length s - n) s) then take (length s - n) s else s)"

definition normalise :: "string \<Rightarrow> string" where
  "normalise mdl = strip_suffix date_dashed 11 (strip_suffix date8 9 (toLowerCase mdl))"

definition startsWith :: "string \<Rightarrow> string \<Rightarrow> bool" where
  "startsWith s p = prefix p s"

definition lookupModel :: "string \<Rightarrow> pricing option" where
  "lookupModel mdl =
     (if mdl = [] then None
      else find (\<lambda>p. startsWith (normalise mdl) (p_prefix p)) PRICING)"

subsection \<open>Cost of one request\<close>

text \<open>\<open>rate || 0\<close> on a rate that may be \<open>null\<close>.\<close>

definition rate_or0 :: "double option \<Rightarrow> double" where
  "rate_or0 r = (case r of None \<Rightarrow> 0 | Some x \<Rightarrow> x)"

definition computeCostUSD ::
  "string \<Rightarrow> nat option \<Rightarrow> nat option \<Rightarrow> nat option \<Rightarrow> nat option \<Rightarrow> double" where
  "computeCostUSD mdl inputTokens outputTokens cacheCreationTokens cacheReadTokens =
     (case lookupModel mdl of
        None \<Rightarrow> 0
      | Some entry \<Rightarrow>
          let M = 1000000;
              cost = 0;
              cost = fadd cost (fmul (fdiv (of_nat (or0 inputTokens)) M) (p_input entry));
              cost = fadd cost (fmul (fdiv (of_nat (or0 outputTokens)) M) (p_output entry));
              cost = fadd cost (fmul (fdiv (of_nat (or0 cacheCreationTokens)) M)
                                  (rate_or0 (p_cache_write entry)));
              cost = fadd cost (fmul (fdiv (of_nat (or0 cacheReadTokens)) M)
                                  (rate_or0 (p_cache_read entry)))
          in cost)"

definition inferProvider :: "string \<Rightarrow> string" where
  "inferProvider mdl =
     (if mdl = [] then ''unknown''
      else case lookupModel mdl of
        Some entry \<Rightarrow> p_provider entry
      | None \<Rightarrow>
          if startsWith mdl ''gpt-'' \<or> startsWith mdl ''o1'' \<or> startsWith mdl ''o3''
             \<or> startsWith mdl ''o4'' then ''openai''
          else if startsWith mdl ''claude'' then ''anthropic''
          else ''unknown'')"

text \<open>Every rate of an entry lies between 0 and 128 USD per million tokens.\<close>

definition rates_ok :: "pricing \<Rightarrow> bool" where
  "rates_ok e =
     (0 \<le> p_input e \<and> p_input e \<le> 128 \<and> 0 \<le> p_output e \<and> p_output e \<le> 128 \<and>
      0 \<le> rate_or0 (p_cache_write e) \<and> rate_or0 (p_cache_write e) \<le> 128 \<and>
      0 \<le> rate_or0 (p_cache_read e) \<and> rate_or0 (p_cache_read e) \<le> 128)"

text \<open>A string that ends in one of the two date suffixes.\<close>

definition date_suffixed :: "string \<Rightarrow> bool" where
  "date_suffixed s =
     ((9 \<le> length s \<and> date8 (drop (length s - 9) s)) \<or>
      (11 \<le> length s \<and> date_dashed (drop (length s - 11) s)))"

text \<open>
  What one application can remove from the end of a name: nothing, one date suffix of
  either form, or a suffix \<open>-YYYY-MM-DD\<close> followed by a suffix \<open>-YYYYMMDD\<close>.
\<close>

definition one_pass_suffix :: "string \<Rightarrow> bool" where
  "one_pass_suffix d =
     (d = [] \<or> date8 d \<or> date_dashed d \<or> (date_dashed (take 11 d) \<and> date8 (drop 11 d)))"

section \<open>Arrays, maps and sets\<close>

text \<open>
  \<open>Array.prototype.sort(comparefn)\<close> is stable, and the engine consults the comparator only
  through the test \<open>comparefn(x, y) < 0\<close>. It is modelled by the stable insertion sort:
  each element in turn is placed in the sorted prefix, in front of the first element it
  compares below.
\<close>

fun js_insert :: "('a \<Rightarrow> 'a \<Rightarrow> double) \<Rightarrow> 'a \<Rightarrow> 'a list \<Rightarrow> 'a list" where
  "js_insert cmp x [] = [x]"
| "js_insert cmp x (y # ys) = (if cmp x y < 0 then x # y # ys else y # js_insert cmp x ys)"

definition js_sort :: "('a \<Rightarrow> 'a \<Rightarrow> double) \<Rightarrow> 'a list \<Rightarrow> 'a list" where
  "js_sort cmp xs = foldl (\<lambda>acc x. js_insert cmp x acc) [] xs"

text \<open>
  \<open>xs.slice(start, end)\<close> with integer arguments: a negative index counts from the end,
  and both are clamped to the array.
\<close>

definition js_slice :: "'a list \<Rightarrow> int \<Rightarrow> int \<Rightarrow> 'a list" where
  "js_slice xs start fin =
     (let len = int (length xs);
          k = (if start < 0 then max (len + start) 0 else min start len);
          final = (if fin < 0 then max (len + fin) 0 else min fin len)
      in take (nat (final - k)) (drop (nat k) xs))"

text \<open>
  A \<open>Map\<close> with string keys is an association list in insertion order: \<open>map.has(k)\<close> is
  \<open>map_of mp k \<noteq> None\<close>, \<open>map.set(k, v)\<close> on a new key appends, and changing the object
  that \<open>map.get(k)\<close> returns replaces the value in place (\<open>AList.update\<close> does both).
  The aggregations share one loop,
  \<^verbatim>\<open>for (const e of filtered) { if (!map.has(key)) map.set(key, init); const r = map.get(key); ...update r... }\<close>
  which is \<open>group_loop\<close> with the key, the initial row and the update of each aggregation.
\<close>

definition map_step ::
  "('e \<Rightarrow> string) \<Rightarrow> ('e \<Rightarrow> 'r) \<Rightarrow> ('r \<Rightarrow> 'e \<Rightarrow> 'r) \<Rightarrow> (string \<times> 'r) list \<Rightarrow> 'e
     \<Rightarrow> (string \<times> 'r) list" where
  "map_step key init upd mp e =
     (let mp1 = (if map_of mp (key e) = None then AList.update (key e) (init e) mp else mp)
      in case map_of mp1 (key e) of
           None \<Rightarrow> mp1
         | Some r \<Rightarrow> AList.update (key e) (upd r e) mp1)"

definition group_loop ::
  "('e \<Rightarrow> string) \<Rightarrow> ('e \<Rightarrow> 'r) \<Rightarrow> ('r \<Rightarrow> 'e \<Rightarrow> 'r) \<Rightarrow> 'e list \<Rightarrow> (string \<times> 'r) list" where
  "group_loop key init upd es = foldl (map_step key init upd) [] es"

text \<open>\<open>[...map.values()]\<close>\<close>

definition map_values :: "(string \<times> 'r) list \<Rightarrow> 'r list" where
  "map_values mp = map snd mp"

text \<open>A \<open>Set\<close> of strings in insertion order, and \<open>Array.prototype.join\<close>.\<close>

definition set_add :: "string \<Rightarrow> string list \<Rightarrow> string list" where
  "set_add x xs = (if x \<in> set xs then xs else xs @ [x])"

fun join :: "string \<Rightarrow> string list \<Rightarrow> string" where
  "join sep [] = []"
| "join sep [x] = x"
| "join sep (x # y # ys) = x @ sep @ join sep (y # ys)"

text \<open>
  What the loop computes, in the words of the specification: one group per key, in the
  order in which the keys first occur (\<open>remdups\<close> keeps the last occurrence of each
  element, so \<open>first_occ\<close> keeps the first), each group's row folded over the events
  of that key in their order, starting from the row made for the group's first event.
\<close>

definition first_occ :: "'a list \<Rightarrow> 'a list" where
  "first_occ xs = rev (remdups (rev xs))"

definition group_of :: "('e \<Rightarrow> string) \<Rightarrow> 'e list \<Rightarrow> string \<Rightarrow> 'e list" where
  "group_of key es k = filter (\<lambda>e. key e = k) es"

definition group_row :: "('e \<Rightarrow> string) \<Rightarrow> ('e \<Rightarrow> 'r) \<Rightarrow> ('r \<Rightarrow> 'e \<Rightarrow> 'r) \<Rightarrow> 'e list \<Rightarrow> string \<Rightarrow> 'r" where
  "group_row key init upd es k =
     foldl upd (init (hd (group_of key es k))) (group_of key es k)"

definition group_spec ::
  "('e \<Rightarrow> string) \<Rightarrow> ('e \<Rightarrow> 'r) \<Rightarrow> ('r \<Rightarrow> 'e \<Rightarrow> 'r) \<Rightarrow> 'e list \<Rightarrow> (string \<times> 'r) list" where
  "group_spec key init upd es =
     map (\<lambda>k. (k, group_row key init upd es k)) (first_occ (map key es))"

section \<open>Aggregations\<close>

subsection \<open>Overview\<close>

text \<open>The accumulator of \<open>reduce\<close> (fields with the prefix \<open>t_\<close>).\<close>

record totals =
  t_total_requests :: nat
  t_input_tokens :: double
  t_output_tokens :: double
  t_cache_creation_tokens :: double
  t_cache_read_tokens :: double
  t_cost_usd :: double

text \<open>A row of the per-model breakdown (fields with the prefix \<open>m_\<close>).\<close>

record model_row =
  m_model :: string
  m_provider :: string
  m_requests :: nat
  m_input_tokens :: double
  m_output_tokens :: double
  m_cache_creation_tokens :: double
  m_cache_read_tokens :: double
  m_cost_usd :: double

record overview =
  totals :: totals
  byModel :: "model_row list"

definition totals_init :: totals where
  "totals_init = \<lparr> t_total_requests = 0, t_input_tokens = 0, t_output_tokens = 0,
     t_cache_creation_tokens = 0, t_cache_read_tokens = 0, t_cost_usd = 0 \<rparr>"

definition totals_step :: "totals \<Rightarrow> event \<Rightarrow> totals" where
  "totals_step acc e =
     \<lparr> t_total_requests = t_total_requests acc + 1,
       t_input_tokens = fadd (t_input_tokens acc) (of_nat (input_tokens e)),
       t_output_tokens = fadd (t_output_tokens acc) (of_nat (output_tokens e)),
       t_cache_creation_tokens =
         fadd (t_cache_creation_tokens acc) (of_nat (cache_creation_tokens e)),
       t_cache_read_tokens = fadd (t_cache_read_tokens acc) (of_nat (cache_read_tokens e)),
       t_cost_usd = fadd (t_cost_usd acc) (cost_usd e) \<rparr>"

definition model_init :: "event \<Rightarrow> model_row" where
  "model_init e =
     \<lparr> m_model = model e, m_provider = provider e, m_requests = 0,
       m_input_tokens = 0, m_output_tokens = 0,
       m_cache_creation_tokens = 0, m_cache_read_tokens = 0, m_cost_usd = 0 \<rparr>"

definition model_step :: "model_row \<Rightarrow> event \<Rightarrow> model_row" where
  "model_step m e =
     m \<lparr> m_requests := m_requests m + 1,
         m_input_tokens := fadd (m_input_tokens m) (of_nat (input_tokens e)),
         m_output_tokens := fadd (m_output_tokens m) (of_nat (output_tokens e)),
         m_cache_creation_tokens :=
           fadd (m_cache_creation_tokens m) (of_nat (cache_creation_tokens e)),
         m_cache_read_tokens := fadd (m_cache_read_tokens m) (of_nat (cache_read_tokens e)),
         m_cost_usd := fadd (m_cost_usd m) (cost_usd e) \<rparr>"

definition computeOverview :: "event list \<Rightarrow> string option \<Rightarrow> string option \<Rightarrow> overview" where
  "computeOverview events from to =
     (let filtered = filterByDate events from to;
          totals = foldl totals_step totals_init filtered;
          modelMap = group_loop model model_init model_step filtered;
          byModel = js_sort (\<lambda>a b. fsub (m_cost_usd b) (m_cost_usd a)) (map_values modelMap)
      in \<lparr> totals = totals, byModel = byModel \<rparr>)"

subsection \<open>Top sessions\<close>

text \<open>A numeric parameter with a default value: \<open>limit = 20\<close>.\<close>

definition or_default :: "int option \<Rightarrow> int \<Rightarrow> int" where
  "or_default v d = (case v of None \<Rightarrow> d | Some x \<Rightarrow> x)"


text \<open>
  A session summary (fields with the prefix \<open>s_\<close>). \<open>models\<close> is a \<open>Set\<close> while the loop
  runs and the comma-joined string in the result.
\<close>

record 'm session =
  s_session_id :: "string option"
  s_project_path :: "string option"
  s_requests :: nat
  s_input_tokens :: double
  s_output_tokens :: double
  s_cache_creation_tokens :: double
  s_cache_read_tokens :: double
  s_cost_usd :: double
  s_started_at :: string
  s_ended_at :: string
  s_models :: 'm

text \<open>\<open>e.session_id || 'unknown'\<close>\<close>

definition session_key :: "event \<Rightarrow> string" where
  "session_key e = (if truthy (session_id e) then the (session_id e) else ''unknown'')"

definition session_init :: "event \<Rightarrow> string list session" where
  "session_init e =
     \<lparr> s_session_id = session_id e, s_project_path = project_path e, s_requests = 0,
       s_input_tokens = 0, s_output_tokens = 0,
       s_cache_creation_tokens = 0, s_cache_read_tokens = 0, s_cost_usd = 0,
       s_started_at = occurred_at e, s_ended_at = occurred_at e, s_models = [] \<rparr>"

definition session_step :: "string list session \<Rightarrow> event \<Rightarrow> string list session" where
  "session_step s e =
     s \<lparr> s_requests := s_requests s + 1,
         s_input_tokens := fadd (s_input_tokens s) (of_nat (input_tokens e)),
         s_output_tokens := fadd (s_output_tokens s) (of_nat (output_tokens e)),
         s_cache_creation_tokens :=
           fadd (s_cache_creation_tokens s) (of_nat (cache_creation_tokens e)),
         s_cache_read_tokens := fadd (s_cache_read_tokens s) (of_nat (cache_read_tokens e)),
         s_cost_usd := fadd (s_cost_usd s) (cost_usd e),
         s_started_at := (if occurred_at e < s_started_at s then occurred_at e
                          else s_started_at s),
         s_ended_at := (if occurred_at e > s_ended_at s then occurred_at e else s_ended_at s),
         s_models := set_add (model e) (s_models s) \<rparr>"

text \<open>\<open>s => ({ ...s, models: [...s.models].join(',') })\<close>\<close>

definition session_out :: "string list session \<Rightarrow> string session" where
  "session_out s =
     \<lparr> s_session_id = s_session_id s, s_project_path = s_project_path s,
       s_requests = s_requests s,
       s_input_tokens = s_input_tokens s, s_output_tokens = s_output_tokens s,
       s_cache_creation_tokens = s_cache_creation_tokens s,
       s_cache_read_tokens = s_cache_read_tokens s, s_cost_usd = s_cost_usd s,
       s_started_at = s_started_at s, s_ended_at = s_ended_at s,
       s_models = join '','' (s_models s) \<rparr>"

definition computeTopSessions ::
  "event list \<Rightarrow> string option \<Rightarrow> string option \<Rightarrow> int option \<Rightarrow> string session list" where
  "computeTopSessions events from to limit_arg =
     (let limit = or_default limit_arg 20;
          filtered = filterByDate events from to;
          mp = group_loop session_key session_init session_step filtered
      in map session_out
           (js_slice (js_sort (\<lambda>a b. fsub (s_cost_usd b) (s_cost_usd a)) (map_values mp))
              0 limit))"

subsection \<open>Paginated events\<close>

text \<open>
  The options object of \<open>computeEvents\<close> (fields with the prefix \<open>q_\<close>; \<open>page\<close> and \<open>limit\<close>
  default to 1 and 50 when absent) and its result. \<open>pages\<close> is \<open>Math.ceil(total / limit)\<close>,
  which is not a finite number when \<open>limit\<close> is 0: then it is \<open>None\<close>.
  \<open>String.prototype.localeCompare\<close> belongs to the engine's collation library and is a
  parameter.
\<close>

record query =
  q_page :: "int option"
  q_limit :: "int option"
  q_model :: "string option"
  q_provider :: "string option"
  q_from :: "string option"
  q_to :: "string option"
  q_session_id :: "string option"
  q_sort :: "string option"

record event_page =
  rows :: "event list"
  total :: nat
  page :: int
  limit :: int
  pages :: "int option"

definition computeEvents ::
  "(string \<Rightarrow> string \<Rightarrow> double) \<Rightarrow> event list \<Rightarrow> query \<Rightarrow> event_page" where
  "computeEvents localeCompare events q =
     (let page = or_default (q_page q) 1;
          limit = or_default (q_limit q) 50;
          f = events;
          f = (if truthy (q_from q) then filter (\<lambda>e. occurred_at e \<ge> the (q_from q)) f else f);
          f = (if truthy (q_to q)
               then filter (\<lambda>e. occurred_at e \<le> the (q_to q) @ ''T23:59:59'') f else f);
          f = (if truthy (q_model q) then filter (\<lambda>e. model e = the (q_model q)) f else f);
          f = (if truthy (q_provider q)
               then filter (\<lambda>e. provider e = the (q_provider q)) f else f);
          f = (if truthy (q_session_id q)
               then filter (\<lambda>e. session_id e = q_session_id q) f else f);
          f = (if q_sort q = Some ''cost''
               then js_sort (\<lambda>a b. fsub (cost_usd b) (cost_usd a)) f
               else js_sort (\<lambda>a b. localeCompare (occurred_at b) (occurred_at a)) f);
          total = length f;
          offset = (page - 1) * limit
      in \<lparr> rows = js_slice f offset (offset + limit), total = total, page = page,
           limit = limit,
           pages = (if limit = 0 then None
                    else Some \<lceil>rat_of_nat total / rat_of_int limit\<rceil>) \<rparr>)"

section \<open>Log files\<close>

text \<open>
  A log file is newline-delimited JSON. \<open>JSON.parse\<close> is the engine's; a line is modelled
  by what parsing its trimmed text gives: nothing to parse (\<open>Blank\<close>), a syntax error
  (\<open>Malformed\<close>), the value \<open>null\<close> (\<open>JsonNull\<close>), or a record (\<open>Json\<close>). A record has the
  fields the log format gives it, each optional, with the types of that format (a field of
  another type than the format's is not represented; a JSON value that is not an object
  has no \<open>type\<close> and behaves as a record without fields).
\<close>

record usage =
  u_input_tokens :: "nat option"
  u_output_tokens :: "nat option"
  u_cache_creation_input_tokens :: "nat option"
  u_cache_read_input_tokens :: "nat option"

text \<open>An element of a structured \<open>content\<close> array; \<open>None\<close> in the array is a \<open>null\<close> element.\<close>

record item =
  it_type :: "string option"
  it_text :: "string option"

datatype content = CString string | CArray "item option list" | COther

record message =
  msg_id :: "string option"
  msg_model :: "string option"
  msg_usage :: "usage option"
  msg_content :: "content option"

record log_record =
  r_type :: "string option"
  r_message :: "message option"
  r_sessionId :: "string option"
  r_cwd :: "string option"
  r_timestamp :: "string option"
  r_isSidechain :: bool

datatype line = Blank | Malformed | JsonNull | Json log_record

text \<open>
  The directory tree below the root, as the \<open>fs\<close> calls of the loader see it: whether the
  root and its \<open>projects\<close> directory exist, the entries of \<open>projects\<close> (\<open>None\<close> when
  \<open>readdirSync\<close> throws), and for each of them whether it is a directory, its
  \<open>sessions-index.json\<close> (absent; present but unreadable, not JSON or \<open>null\<close>; or
  parsed, with its \<open>entries\<close> if it has any, an entry being \<open>None\<close> when it is \<open>null\<close>),
  and its own entries (\<open>None\<close> when
  \<open>readdirSync\<close> throws), each with a name, whether it is a file, and its lines (\<open>None\<close>
  when \<open>readFileSync\<close> throws).
\<close>

record idx_entry =
  ie_fullPath :: "string option"
  ie_projectPath :: "string option"

datatype index_file = NoIndex | BadIndex | Index "idx_entry option list option"

record dirent =
  d_name :: string
  d_isFile :: bool
  d_lines :: "line list option"

record slug_dir =
  sd_isDirectory :: bool
  sd_index :: index_file
  sd_entries :: "dirent list option"

record file_system =
  claudeDir_exists :: bool
  projectsDir_exists :: bool
  projects :: "slug_dir list option"

text \<open>
  What the loader takes from its environment: \<open>new Date().toISOString()\<close>, here the
  reading of the clock when the event with the given index is pushed, and
  \<open>path.basename\<close>.
\<close>

record env =
  clock :: "nat \<Rightarrow> string"
  basename :: "string \<Rightarrow> string"

datatype error = TypeError | FsError

section \<open>Event extractor\<close>

text \<open>
  \<open>String.prototype.trim\<close> removes white space and line terminators at both ends (here
  the ones among the code units below 256), \<open>slice(0, 400)\<close> keeps the first 400 code
  units.
\<close>

definition is_space :: "char \<Rightarrow> bool" where
  "is_space c = (of_char c \<in> {9, 10, 11, 12, 13, 32, 160 :: nat})"

definition trim :: "string \<Rightarrow> string" where
  "trim s = rev (dropWhile is_space (rev (dropWhile is_space s)))"

definition text_or_null :: "string \<Rightarrow> string option" where
  "text_or_null s = (if s = [] then None else Some s)"

definition extractHumanText :: "content option \<Rightarrow> string option" where
  "extractHumanText content =
     (case content of
        None \<Rightarrow> None
      | Some (CString s) \<Rightarrow> if s = [] then None else text_or_null (take 400 (trim s))
      | Some (CArray items) \<Rightarrow>
          let parts = map (\<lambda>i. trim (the (it_text (the i))))
                        (filter (\<lambda>i. i \<noteq> None \<and> it_type (the i) = Some ''text''
                                      \<and> it_text (the i) \<noteq> None) items);
              joined = trim (join '' '' parts)
          in if joined \<noteq> [] then Some (take 400 joined) else None
      | Some COther \<Rightarrow> None)"

text \<open>The object literal pushed for an assistant record with usage data.\<close>

definition make_event ::
  "string \<Rightarrow> string option \<Rightarrow> string option \<Rightarrow> log_record \<Rightarrow> string \<Rightarrow> string \<Rightarrow> usage \<Rightarrow> event" where
  "make_event now proj lastHumanText obj requestId mdl usage =
     (let inputTokens = or0 (u_input_tokens usage);
          outputTokens = or0 (u_output_tokens usage);
          cacheCreationTokens = or0 (u_cache_creation_input_tokens usage);
          cacheReadTokens = or0 (u_cache_read_input_tokens usage)
      in \<lparr> provider = inferProvider mdl,
           model = mdl,
           session_id = or_null (r_sessionId obj),
           project_path = (if truthy proj then proj else or_null (r_cwd obj)),
           request_id = requestId,
           occurred_at = (if truthy (r_timestamp obj) then the (r_timestamp obj) else now),
           input_tokens = inputTokens,
           output_tokens = outputTokens,
           cache_creation_tokens = cacheCreationTokens,
           cache_read_tokens = cacheReadTokens,
           cost_usd = computeCostUSD mdl (Some inputTokens) (Some outputTokens)
                        (Some cacheCreationTokens) (Some cacheReadTokens),
           source = (if r_isSidechain obj then ''claude-code-subagent'' else ''claude-code''),
           prompt_text = or_null lastHumanText \<rparr>)"

text \<open>
  The loop of \<open>parseJSONL\<close> over the lines of one file. \<open>seen\<close> and \<open>events\<close> are the
  caller's set and array, returned updated; \<open>lastHumanText\<close> is local to the file. Reading
  \<open>obj.type\<close> of \<open>null\<close> throws a \<open>TypeError\<close>, which nothing in the loader catches.
\<close>

fun parse_lines ::
  "env \<Rightarrow> string option \<Rightarrow> line list \<Rightarrow> string option \<Rightarrow> string set \<Rightarrow> event list
     \<Rightarrow> error + (string set \<times> event list)" where
  "parse_lines en proj [] lastHumanText seen events = Inr (seen, events)"
| "parse_lines en proj (Blank # ls) lastHumanText seen events =
     parse_lines en proj ls lastHumanText seen events"
| "parse_lines en proj (Malformed # ls) lastHumanText seen events =
     parse_lines en proj ls lastHumanText seen events"
| "parse_lines en proj (JsonNull # ls) lastHumanText seen events = Inl TypeError"
| "parse_lines en proj (Json obj # ls) lastHumanText seen events =
     (if r_type obj = Some ''user'' then
        let text = (case r_message obj of
                      None \<Rightarrow> None
                    | Some msg \<Rightarrow> extractHumanText (msg_content msg))
        in parse_lines en proj ls (if truthy text then text else lastHumanText) seen events
      else if r_type obj \<noteq> Some ''assistant'' then
        parse_lines en proj ls lastHumanText seen events
      else case r_message obj of
        None \<Rightarrow> parse_lines en proj ls lastHumanText seen events
      | Some msg \<Rightarrow>
         (case msg_usage msg of
            None \<Rightarrow> parse_lines en proj ls lastHumanText seen events
          | Some usage \<Rightarrow>
              if \<not> truthy (msg_id msg) then parse_lines en proj ls lastHumanText seen events
              else let requestId = the (msg_id msg) in
                if requestId \<in> seen then parse_lines en proj ls lastHumanText seen events
                else let seen = insert requestId seen in
                  if \<not> truthy (msg_model msg) \<or> msg_model msg = Some ''<synthetic>''
                  then parse_lines en proj ls lastHumanText seen events
                  else parse_lines en proj ls lastHumanText seen
                         (events @ [make_event (clock en (length events)) proj lastHumanText
                                      obj requestId (the (msg_model msg)) usage])))"

definition parseJSONL ::
  "env \<Rightarrow> dirent \<Rightarrow> string option \<Rightarrow> string set \<Rightarrow> event list
     \<Rightarrow> error + (string set \<times> event list)" where
  "parseJSONL en file proj seen events =
     (case d_lines file of
        None \<Rightarrow> Inr (seen, events)
      | Some content \<Rightarrow> parse_lines en proj content None seen events)"

section \<open>Ingestion\<close>

definition endsWith :: "string \<Rightarrow> string \<Rightarrow> bool" where
  "endsWith s p = suffix p s"

text \<open>
  The \<open>projectPathMap\<close> built from the index entries (a later entry for the same file
  name replaces an earlier one), and the slug-level fallback \<open>projectPath\<close>. Reading a
  field of a \<open>null\<close> entry throws inside the \<open>try\<close> block: the loop stops there, the map
  keeps what was stored before, and the fallback, which is assigned after the loop, stays
  \<open>null\<close>. The flag returned with the map tells whether the loop came to its end.
\<close>

fun index_map ::
  "env \<Rightarrow> idx_entry option list \<Rightarrow> (string \<rightharpoonup> string option)
     \<Rightarrow> (string \<rightharpoonup> string option) \<times> bool" where
  "index_map en [] mp = (mp, True)"
| "index_map en (None # es) mp = (mp, False)"
| "index_map en (Some entry # es) mp =
     index_map en es
       (if truthy (ie_fullPath entry)
        then mp(basename en (the (ie_fullPath entry)) \<mapsto> or_null (ie_projectPath entry))
        else mp)"

definition read_index :: "env \<Rightarrow> index_file \<Rightarrow> (string \<rightharpoonup> string option) \<times> string option" where
  "read_index en idx =
     (case idx of
        NoIndex \<Rightarrow> (Map.empty, None)
      | BadIndex \<Rightarrow> (Map.empty, None)
      | Index entries \<Rightarrow>
          (let es = (case entries of None \<Rightarrow> [] | Some es \<Rightarrow> es);
               (mp, completed) = index_map en es Map.empty
           in (mp,
               if completed
               then (case es of Some first # rest \<Rightarrow> or_null (ie_projectPath first) | _ \<Rightarrow> None)
               else None)))"

text \<open>The loop over the entries of one slug directory.\<close>

fun load_files ::
  "env \<Rightarrow> (string \<rightharpoonup> string option) \<Rightarrow> string option \<Rightarrow> dirent list \<Rightarrow> string set \<Rightarrow> event list
     \<Rightarrow> error + (string set \<times> event list)" where
  "load_files en mp projectPath [] seen events = Inr (seen, events)"
| "load_files en mp projectPath (ent # ents) seen events =
     (if \<not> d_isFile ent \<or> \<not> endsWith (d_name ent) ''.jsonl''
      then load_files en mp projectPath ents seen events
      else let proj = (case mp (d_name ent) of
                         Some (Some p) \<Rightarrow> Some p
                       | _ \<Rightarrow> projectPath)
           in case parseJSONL en ent proj seen events of
                Inl err \<Rightarrow> Inl err
              | Inr (seen, events) \<Rightarrow> load_files en mp projectPath ents seen events)"

text \<open>The loop over the slug directories.\<close>

fun load_slugs ::
  "env \<Rightarrow> slug_dir list \<Rightarrow> string set \<Rightarrow> event list \<Rightarrow> error + (string set \<times> event list)" where
  "load_slugs en [] seen events = Inr (seen, events)"
| "load_slugs en (slugDir # slugDirs) seen events =
     (let (mp, projectPath) = read_index en (sd_index slugDir)
      in case sd_entries slugDir of
           None \<Rightarrow> load_slugs en slugDirs seen events
         | Some entries \<Rightarrow>
            (case load_files en mp projectPath entries seen events of
               Inl err \<Rightarrow> Inl err
             | Inr (seen, events) \<Rightarrow> load_slugs en slugDirs seen events))"

text \<open>The events in the order of the scan, before they are sorted.\<close>

definition collectEvents :: "env \<Rightarrow> file_system \<Rightarrow> error + event list" where
  "collectEvents en fs =
     (if \<not> claudeDir_exists fs then Inr []
      else if \<not> projectsDir_exists fs then Inr []
      else case projects fs of
        None \<Rightarrow> Inl FsError
      | Some ents \<Rightarrow>
         (case load_slugs en (filter sd_isDirectory ents) {} [] of
            Inl err \<Rightarrow> Inl err
          | Inr (seen, events) \<Rightarrow> Inr events))"

definition loadAllEvents :: "env \<Rightarrow> file_system \<Rightarrow> error + event list" where
  "loadAllEvents en fs =
     (case collectEvents en fs of
        Inl err \<Rightarrow> Inl err
      | Inr events \<Rightarrow>
          Inr (js_sort (\<lambda>a b. if occurred_at a < occurred_at b then - 1 else 1) events))"

section \<open>The scan in the words of the specification\<close>

text \<open>
  The request id of a record: the \<open>id\<close> of an assistant record that carries usage data,
  when it is not empty. Other lines have none.
\<close>

definition req_id_of :: "line \<Rightarrow> string option" where
  "req_id_of l =
     (case l of
        Json obj \<Rightarrow>
          if r_type obj = Some ''assistant'' then
            (case r_message obj of
               None \<Rightarrow> None
             | Some msg \<Rightarrow>
                (case msg_usage msg of
                   None \<Rightarrow> None
                 | Some u \<Rightarrow> if truthy (msg_id msg) then msg_id msg else None))
          else None
      | _ \<Rightarrow> None)"

text \<open>A record whose model is present and is not the placeholder.\<close>

definition good_model :: "line \<Rightarrow> bool" where
  "good_model l =
     (case l of
        Json obj \<Rightarrow>
          (case r_message obj of
             None \<Rightarrow> False
           | Some msg \<Rightarrow> truthy (msg_model msg) \<and> msg_model msg \<noteq> Some ''<synthetic>'')
      | _ \<Rightarrow> False)"

text \<open>The event \<open>e\<close> carries the data of the record \<open>l\<close>.\<close>

definition emits :: "line \<Rightarrow> event \<Rightarrow> bool" where
  "emits l e =
     (good_model l \<and>
      (case l of
         Json obj \<Rightarrow>
           (case r_message obj of
              None \<Rightarrow> False
            | Some msg \<Rightarrow>
               (case msg_usage msg of
                  None \<Rightarrow> False
                | Some u \<Rightarrow>
                    msg_id msg = Some (request_id e) \<and> msg_model msg = Some (model e) \<and>
                    provider e = inferProvider (model e) \<and>
                    session_id e = or_null (r_sessionId obj) \<and>
                    input_tokens e = or0 (u_input_tokens u) \<and>
                    output_tokens e = or0 (u_output_tokens u) \<and>
                    cache_creation_tokens e = or0 (u_cache_creation_input_tokens u) \<and>
                    cache_read_tokens e = or0 (u_cache_read_input_tokens u) \<and>
                    cost_usd e =
                      computeCostUSD (model e) (Some (input_tokens e)) (Some (output_tokens e))
                        (Some (cache_creation_tokens e)) (Some (cache_read_tokens e)) \<and>
                    source e =
                      (if r_isSidechain obj then ''claude-code-subagent'' else ''claude-code'')))
       | _ \<Rightarrow> False))"

text \<open>The lines of the full scan, in the order in which the loader reads them.\<close>

definition file_lines :: "dirent \<Rightarrow> line list" where
  "file_lines ent =
     (if d_isFile ent \<and> endsWith (d_name ent) ''.jsonl''
      then (case d_lines ent of None \<Rightarrow> [] | Some ls \<Rightarrow> ls) else [])"

definition slug_lines :: "slug_dir \<Rightarrow> line list" where
  "slug_lines sd = (case sd_entries sd of None \<Rightarrow> [] | Some ents \<Rightarrow> concat (map file_lines ents))"

definition all_lines :: "file_system \<Rightarrow> line list" where
  "all_lines fs =
     (if claudeDir_exists fs \<and> projectsDir_exists fs
      then (case projects fs of
              None \<Rightarrow> []
            | Some ents \<Rightarrow> concat (map slug_lines (filter sd_isDirectory ents)))
      else [])"

text \<open>The first record of a list of lines that has the request id \<open>r\<close>.\<close>

definition first_with :: "string \<Rightarrow> line list \<Rightarrow> line option" where
  "first_with r ls = find (\<lambda>l. req_id_of l = Some r) ls"

text \<open>
  What holds of \<open>seen\<close> and \<open>events\<close> after the lines \<open>pre\<close>: \<open>seen\<close> holds the request ids
  of \<open>pre\<close>, no two events share a request id, every event carries the data of the first
  record with its request id, and every request id whose first record has a model has an
  event.
\<close>

definition scan_inv :: "line list \<Rightarrow> string set \<Rightarrow> event list \<Rightarrow> bool" where
  "scan_inv pre seen events =
     (seen = {r. \<exists>l \<in> set pre. req_id_of l = Some r} \<and>
      distinct (map request_id events) \<and>
      (\<forall>e \<in> set events. \<exists>l. first_with (request_id e) pre = Some l \<and> emits l e) \<and>
      (\<forall>r l. first_with r pre = Some l \<and> good_model l \<longrightarrow> r \<in> request_id ` set events))"

section \<open>The aggregations in the words of the specification\<close>

text \<open>\<open>sum(byModel[*].cost_usd)\<close>: the binary64 sum of the rows' costs, in row order.\<close>

definition byModel_cost_sum :: "model_row list \<Rightarrow> double" where
  "byModel_cost_sum rs = foldl fadd 0 (map m_cost_usd rs)"

text \<open>
  A cost that is a non-negative whole multiple of \<open>2^j\<close>. Sums of such costs that stay
  within 53 bits of that unit are exact in binary64.
\<close>

definition on_grid :: "int \<Rightarrow> double \<Rightarrow> bool" where
  "on_grid j x = (0 \<le> x \<and> x / 2 powi j = of_int \<lfloor>x / 2 powi j\<rfloor>)"

definition exact_costs :: "int \<Rightarrow> event list \<Rightarrow> bool" where
  "exact_costs j es =
     (list_all (\<lambda>e. on_grid j (cost_usd e)) es \<and> sum_list (map cost_usd es) \<le> 2 ^ 53 * 2 powi j)"

text \<open>
  The summary of one session, from the non-empty list \<open>G\<close> of its events in their order:
  request count, token sums and cost sum (binary64 sums in the order of the events),
  earliest and latest \<open>occurred_at\<close>, and the distinct models joined by commas.
\<close>

definition session_summary :: "event list \<Rightarrow> string session" where
  "session_summary G =
     \<lparr> s_session_id = session_id (hd G), s_project_path = project_path (hd G),
       s_requests = length G,
       s_input_tokens = foldl fadd 0 (map (\<lambda>e. of_nat (input_tokens e)) G),
       s_output_tokens = foldl fadd 0 (map (\<lambda>e. of_nat (output_tokens e)) G),
       s_cache_creation_tokens = foldl fadd 0 (map (\<lambda>e. of_nat (cache_creation_tokens e)) G),
       s_cache_read_tokens = foldl fadd 0 (map (\<lambda>e. of_nat (cache_read_tokens e)) G),
       s_cost_usd = foldl fadd 0 (map cost_usd G),
       s_started_at = Min (set (map occurred_at G)),
       s_ended_at = Max (set (map occurred_at G)),
       s_models = join '','' (first_occ (map model G)) \<rparr>"

text \<open>
  All session summaries of the filtered events, ranked by descending cost (sessions of
  equal cost in the order of their first event).
\<close>

definition ranked_sessions :: "event list \<Rightarrow> string option \<Rightarrow> string option \<Rightarrow> string session list" where
  "ranked_sessions events from to =
     (let filtered = filterByDate events from to
      in js_sort (\<lambda>a b. fsub (s_cost_usd b) (s_cost_usd a))
           (map (\<lambda>k. session_summary (group_of session_key filtered k))
              (first_occ (map session_key filtered))))"

text \<open>The filters of the paginated listing as one predicate.\<close>

definition passes :: "query \<Rightarrow> event \<Rightarrow> bool" where
  "passes q e =
     ((truthy (q_from q) \<longrightarrow> the (q_from q) \<le> occurred_at e) \<and>
      (truthy (q_to q) \<longrightarrow> occurred_at e \<le> the (q_to q) @ ''T23:59:59'') \<and>
      (truthy (q_model q) \<longrightarrow> model e = the (q_model q)) \<and>
      (truthy (q_provider q) \<longrightarrow> provider e = the (q_provider q)) \<and>
      (truthy (q_session_id q) \<longrightarrow> session_id e = q_session_id q))"

text \<open>Example data.\<close>

definition ev :: "string \<Rightarrow> string \<Rightarrow> string option \<Rightarrow> string \<Rightarrow> double \<Rightarrow> event" where
  "ev rid m sid ts c =
     \<lparr> provider = ''anthropic'', model = m, session_id = sid, project_path = None,
       request_id = rid, occurred_at = ts,
       input_tokens = 1, output_tokens = 1, cache_creation_tokens = 0, cache_read_tokens = 0,
       cost_usd = c, source = ''claude-code'', prompt_text = None \<rparr>"

text \<open>
  Three requests of cost 0.1, 0.1 and 0.4 on two models: what 20,000, 20,000 and 80,000
  input tokens cost at 5 USD per million.
\<close>

definition three_events :: "event list" where
  "three_events =
     [ev ''r1'' ''claude-opus-4-6'' (Some ''s1'') ''2024-01-01T10:00:00.000Z'' (fl 0.1),
      ev ''r2'' ''claude-opus-4-5'' (Some ''s1'') ''2024-01-01T11:00:00.000Z'' (fl 0.1),
      ev ''r3'' ''claude-opus-4-6'' (Some ''s1'') ''2024-01-01T12:00:00.000Z'' (fl 0.4)]"

text \<open>Three requests of cost 0.5, 0.25 and 0.125 on two models.\<close>

definition dyadic_events :: "event list" where
  "dyadic_events =
     [ev ''r1'' ''claude-opus-4-6'' (Some ''s1'') ''2024-01-01T10:00:00.000Z'' 0.5,
      ev ''r2'' ''claude-sonnet-4-6'' (Some ''s1'') ''2024-01-01T11:00:00.000Z'' 0.25,
      ev ''r3'' ''claude-opus-4-6'' (Some ''s1'') ''2024-01-01T12:00:00.000Z'' 0.125]"

text \<open>Three sessions of cost 10, 20 and 30.\<close>

definition three_sessions :: "event list" where
  "three_sessions =
     [ev ''r1'' ''claude-opus-4-6'' (Some ''s10'') ''2024-01-01T10:00:00.000Z'' 10,
      ev ''r2'' ''claude-opus-4-6'' (Some ''s20'') ''2024-01-01T11:00:00.000Z'' 20,
      ev ''r3'' ''claude-opus-4-6'' (Some ''s30'') ''2024-01-01T12:00:00.000Z'' 30]"

text \<open>
  A root with one project directory that holds one log file \<open>a.jsonl\<close>, and assistant
  records with usage data.
\<close>

definition env0 :: env where
  "env0 = \<lparr> clock = (\<lambda>n. ''2024-06-01T00:00:00.000Z''), basename = (\<lambda>p. p) \<rparr>"

definition usage0 :: usage where
  "usage0 = \<lparr> u_input_tokens = Some 10, u_output_tokens = Some 20,
     u_cache_creation_input_tokens = None, u_cache_read_input_tokens = None \<rparr>"

definition assistant_record :: "string \<Rightarrow> string option \<Rightarrow> string \<Rightarrow> log_record" where
  "assistant_record rid mdl ts =
     \<lparr> r_type = Some ''assistant'',
       r_message = Some \<lparr> msg_id = Some rid, msg_model = mdl, msg_usage = Some usage0,
                           msg_content = None \<rparr>,
       r_sessionId = Some ''s1'', r_cwd = Some ''/work'', r_timestamp = Some ts,
       r_isSidechain = False \<rparr>"

definition one_file :: "line list \<Rightarrow> file_system" where
  "one_file ls =
     \<lparr> claudeDir_exists = True, projectsDir_exists = True,
       projects = Some [\<lparr> sd_isDirectory = True, sd_index = NoIndex,
                          sd_entries = Some [\<lparr> d_name = ''a.jsonl'', d_isFile = True,
                                               d_lines = Some ls \<rparr>] \<rparr>] \<rparr>"

text \<open>
  Four records: request \<open>r1\<close> twice (the second time with another model and an earlier
  timestamp), then \<open>r2\<close> and \<open>r3\<close> with one and the same timestamp.
\<close>

definition dup_lines :: "line list" where
  "dup_lines =
     [Json (assistant_record ''r1'' (Some ''claude-opus-4-6'') ''2024-01-02T10:00:00.000Z''),
      Json (assistant_record ''r1'' (Some ''claude-sonnet-4-6'') ''2024-01-01T09:00:00.000Z''),
      Json (assistant_record ''r2'' (Some ''claude-opus-4-6'') ''2024-01-01T10:00:00.000Z''),
      Json (assistant_record ''r3'' (Some ''claude-opus-4-6'') ''2024-01-01T10:00:00.000Z'')]"

text \<open>The event of an assistant record of this file.\<close>

definition event_of :: "string \<Rightarrow> string \<Rightarrow> string \<Rightarrow> event" where
  "event_of rid mdl ts =
     make_event ''2024-06-01T00:00:00.000Z'' None None (assistant_record rid (Some mdl) ts)
       rid mdl usage0"

text \<open>Request \<open>r1\<close> first with the placeholder model, then with a real one.\<close>

definition synthetic_lines :: "line list" where
  "synthetic_lines =
     [Json (assistant_record ''r1'' (Some ''<synthetic>'') ''2024-01-01T10:00:00.000Z''),
      Json (assistant_record ''r1'' (Some ''claude-opus-4-6'') ''2024-01-01T10:00:01.000Z'')]"

definition no_query :: query where
  "no_query = \<lparr> q_page = None, q_limit = None, q_model = None, q_provider = None,
     q_from = None, q_to = None, q_session_id = None, q_sort = None \<rparr>"

section \<open>Properties of binary64 rounding\<close>

lemma lg_bounds: "0 < n \<Longrightarrow> 2 ^ lg n \<le> n \<and> n < 2 ^ Suc (lg n)"
proof (induction n rule: lg.induct)
  case (1 n)
  show ?case
  proof (cases "n < 2")
    case True
    with "1.prems" have "n = 1" by simp
    then show ?thesis by (simp add: lg.simps)
  next
    case False
    then have pos: "0 < n div 2" by simp
    from "1.IH" [OF False pos]
    have lo: "2 ^ lg (n div 2) \<le> n div 2" and hi: "n div 2 < 2 ^ Suc (lg (n div 2))"
      by simp_all
    have eq: "lg n = Suc (lg (n div 2))"
      using False by (subst lg.simps) simp
    from lo have "2 * 2 ^ lg (n div 2) \<le> n" by simp
    moreover from hi have "n < 2 * 2 ^ Suc (lg (n div 2))" by simp
    ultimately show ?thesis by (simp add: eq)
  qed
qed

lemma clg_upper: "0 < n \<Longrightarrow> n \<le> 2 ^ clg n"
proof (cases "n \<le> 1")
  case True
  then show ?thesis by (simp add: clg_def)
next
  case False
  then have "0 < n - 1" by simp
  from lg_bounds [OF this] have "n - 1 < 2 ^ Suc (lg (n - 1))" by simp
  with False show ?thesis by (simp add: clg_def)
qed

lemma clg_lower: "1 < n \<Longrightarrow> 2 ^ (clg n - 1) < n"
proof -
  assume a: "1 < n"
  then have "0 < n - 1" by simp
  from lg_bounds [OF this] have "2 ^ lg (n - 1) \<le> n - 1" by simp
  with a show ?thesis by (simp add: clg_def)
qed

lemma expo_bounds:
  assumes "0 < x"
  shows "2 powi (expo x) \<le> x \<and> x < 2 powi (expo x + 1)"
proof (cases "1 \<le> x")
  case True
  define n where "n = nat \<lfloor>x\<rfloor>"
  from True have fl1: "1 \<le> \<lfloor>x\<rfloor>" by simp
  then have npos: "0 < n" by (simp add: n_def)
  have nx: "rat_of_nat n \<le> x" using fl1 by (simp add: n_def)
  have xn: "x < rat_of_nat n + 1" using fl1 by (simp add: n_def) linarith
  from lg_bounds [OF npos] have lo: "2 ^ lg n \<le> n" and hi: "n < 2 ^ Suc (lg n)" by simp_all
  have e: "expo x = int (lg n)" using True by (simp add: expo_def n_def)
  have "(2::rat) ^ lg n \<le> rat_of_nat n" using lo by (metis of_nat_le_iff of_nat_numeral of_nat_power)
  from order_trans [OF this nx] have A: "2 powi (expo x) \<le> x" by (simp add: e)
  from hi have "n + 1 \<le> 2 ^ Suc (lg n)" by simp
  then have "rat_of_nat (n + 1) \<le> 2 ^ Suc (lg n)" by (metis of_nat_le_iff of_nat_numeral of_nat_power)
  then have "rat_of_nat n + 1 \<le> 2 ^ Suc (lg n)" by simp
  from less_le_trans [OF xn this] have B: "x < 2 powi (expo x + 1)" by (simp add: e power_int_add)
  from A B show ?thesis by simp
next
  case False
  define y where "y = 1 / x"
  define n where "n = nat \<lceil>y\<rceil>"
  from False assms have y1: "1 < y" by (simp add: y_def)
  then have c2: "2 \<le> \<lceil>y\<rceil>" by (simp add: le_ceiling_iff)
  then have n2: "1 < n" by (simp add: n_def)
  have yn: "y \<le> rat_of_nat n" using c2 by (simp add: n_def)
  have ny: "rat_of_nat n - 1 < y" using c2 by (simp add: n_def) linarith
  have e: "expo x = - int (clg n)" using False by (simp add: expo_def n_def y_def)
  from clg_upper [of n] n2 have "n \<le> 2 ^ clg n" by simp
  then have "rat_of_nat n \<le> 2 ^ clg n" by (metis of_nat_le_iff of_nat_numeral of_nat_power)
  from order_trans [OF yn this] have "1 / x \<le> 2 ^ clg n" by (simp add: y_def)
  then have "1 \<le> 2 ^ clg n * x" using assms by (simp add: field_simps)
  then have A: "2 powi (expo x) \<le> x"
    by (simp add: e power_int_minus field_simps)
  from clg_lower [OF n2] have "2 ^ (clg n - 1) + 1 \<le> n" by simp
  then have "rat_of_nat (2 ^ (clg n - 1) + 1) \<le> rat_of_nat n" by (simp only: of_nat_le_iff)
  then have "(2::rat) ^ (clg n - 1) \<le> rat_of_nat n - 1" by simp
  from le_less_trans [OF this ny] have "2 ^ (clg n - 1) < 1 / x" by (simp add: y_def)
  then have xlt: "x * 2 ^ (clg n - 1) < 1" using assms by (simp add: field_simps)
  have cpos: "0 < clg n" using n2 by (simp add: clg_def)
  then have ee: "expo x + 1 = - int (clg n - 1)" by (simp add: e)
  have B: "x < 2 powi (expo x + 1)"
    unfolding ee using xlt by (simp add: power_int_minus field_simps)
  from A B show ?thesis by simp
qed

lemma powi_mono: "j \<le> k \<Longrightarrow> (2::rat) powi j \<le> 2 powi k"
  by (rule power_int_increasing) simp_all

lemma expo_unique:
  assumes "0 < x" and lo: "2 powi k \<le> x" and hi: "x < 2 powi (k + 1)"
  shows "expo x = k"
proof (rule ccontr)
  assume ne: "expo x \<noteq> k"
  from expo_bounds [OF assms(1)]
  have elo: "2 powi (expo x) \<le> x" and ehi: "x < 2 powi (expo x + 1)" by simp_all
  show False
  proof (cases "expo x < k")
    case True
    then have "expo x + 1 \<le> k" by simp
    from powi_mono [OF this] ehi lo show False by simp
  next
    case False
    with ne have "k + 1 \<le> expo x" by simp
    from powi_mono [OF this] elo hi show False by simp
  qed
qed

lemma round_even_of_int: "round_even (of_int m) = m"
  by (simp add: round_even_def)

lemma round_even_lower: "of_int m \<le> q \<Longrightarrow> m \<le> round_even q"
proof -
  assume "of_int m \<le> q"
  then have "m \<le> \<lfloor>q\<rfloor>" by (simp add: le_floor_iff)
  then show ?thesis by (simp add: round_even_def Let_def)
qed

lemma round_even_upper: "q \<le> of_int m \<Longrightarrow> round_even q \<le> m"
proof (cases "q = of_int \<lfloor>q\<rfloor>")
  case True
  assume "q \<le> of_int m"
  then have "\<lfloor>q\<rfloor> \<le> m" by (metis floor_mono floor_of_int)
  moreover from True have "round_even q = \<lfloor>q\<rfloor>" by (simp add: round_even_def)
  ultimately show ?thesis by simp
next
  case False
  assume a: "q \<le> of_int m"
  have "of_int \<lfloor>q\<rfloor> \<le> q" by simp
  with False have "of_int \<lfloor>q\<rfloor> < q" by (metis less_le)
  with a have "of_int \<lfloor>q\<rfloor> < (of_int m :: rat)" by simp
  then have "\<lfloor>q\<rfloor> < m" by (simp only: of_int_less_iff)
  then show ?thesis by (simp add: round_even_def Let_def)
qed

lemma fl_zero: "fl 0 = 0"
  by (simp add: fl_def)

lemma fl_minus: "fl (- x) = - fl x"
  by (simp add: fl_def Let_def sgn_minus)

lemma fl_pos_eq: "0 < x \<Longrightarrow> fl x = of_int (round_even (x / 2 powi (expo x - 52))) * 2 powi (expo x - 52)"
  by (simp add: fl_def Let_def)

lemma powi_pos: "0 < (2::rat) powi k"
  by simp

lemma fl_pos: assumes "0 < x" shows "0 < fl x"
proof -
  define u :: rat where "u = 2 powi (expo x - 52)"
  have upos: "0 < u" by (simp add: u_def)
  from expo_bounds [OF assms] have "2 powi (expo x) \<le> x" by simp
  moreover have "(2::rat) powi (expo x) = 2 ^ 52 * u"
    by (simp add: u_def power_int_diff)
  ultimately have "2 ^ 52 * u \<le> x" by simp
  then have "of_int (2 ^ 52) \<le> x / u" using upos by (simp add: field_simps)
  from round_even_lower [OF this] have "0 < round_even (x / u)" by simp
  then show ?thesis using upos by (simp add: fl_pos_eq [OF assms] u_def [symmetric])
qed

lemma fl_nonneg: "0 \<le> x \<Longrightarrow> 0 \<le> fl x"
  using fl_pos [of x] by (cases "x = 0") (simp_all add: fl_zero less_le)

lemma fl_neg: "x < 0 \<Longrightarrow> fl x < 0"
  using fl_pos [of "- x"] by (simp add: fl_minus)

lemma fl_less_zero_iff: "fl x < 0 \<longleftrightarrow> x < 0"
  using fl_neg [of x] fl_nonneg [of x] by (cases "x < 0") (simp_all add: not_less)

lemma fl_le_pow2:
  assumes "0 < x" and le: "x \<le> 2 powi k"
  shows "fl x \<le> 2 powi k"
proof -
  define e where "e = expo x"
  define u :: rat where "u = 2 powi (e - 52)"
  have upos: "0 < u" by (simp add: u_def)
  from expo_bounds [OF assms(1)] have lo: "2 powi e \<le> x" by (simp add: e_def)
  have ek: "e \<le> k"
  proof (rule ccontr)
    assume "\<not> e \<le> k"
    then have "k + 1 \<le> e" by simp
    from powi_mono [OF this] lo le have "(2::rat) powi (k + 1) \<le> 2 powi k" by simp
    then show False by (simp add: power_int_add)
  qed
  then obtain d :: nat where d: "k = e + int d" by (metis nonneg_int_cases diff_ge_0_iff_ge add_diff_cancel_left' diff_add_cancel)
  have "(2::rat) powi k = 2 ^ (d + 52) * u"
    by (simp add: u_def d power_int_diff power_int_add power_add)
  then have pk: "(2::rat) powi k = of_int (2 ^ (d + 52)) * u" by simp
  with le have "x / u \<le> of_int (2 ^ (d + 52))" using upos by (simp add: field_simps)
  from round_even_upper [OF this] have "round_even (x / u) \<le> 2 ^ (d + 52)" .
  then have "(of_int (round_even (x / u)) :: rat) \<le> of_int (2 ^ (d + 52))" by (simp only: of_int_le_iff)
  then have "of_int (round_even (x / u)) * u \<le> of_int (2 ^ (d + 52)) * u"
    using upos by (simp only: mult_le_cancel_right_pos)
  then show ?thesis by (simp only: fl_pos_eq [OF assms(1)] e_def [symmetric] u_def [symmetric] pk)
qed

lemma fl_repr:
  assumes npos: "0 < n" and nle: "n \<le> 2 ^ 53"
  shows "fl (of_int n * 2 powi j) = of_int n * 2 powi j"
proof -
  define x :: rat where "x = of_int n * 2 powi j"
  define e where "e = expo (of_int n)"
  have xpos: "0 < x" using npos by (simp add: x_def)
  have n0: "0 < (of_int n :: rat)" using npos by simp
  from expo_bounds [OF n0] have lo: "2 powi e \<le> (of_int n :: rat)" and hi: "(of_int n :: rat) < 2 powi (e + 1)"
    by (simp_all add: e_def)
  have ex: "expo x = e + j"
  proof (rule expo_unique [OF xpos])
    show "2 powi (e + j) \<le> x" using lo by (simp add: x_def power_int_add)
    show "x < 2 powi (e + j + 1)" using hi by (simp add: x_def power_int_add)
  qed
  have e53: "e \<le> 53"
  proof (rule ccontr)
    assume "\<not> e \<le> 53"
    then have "54 \<le> e" by simp
    from powi_mono [OF this] lo have "(2::rat) powi 54 \<le> of_int n" by simp
    moreover have "(of_int n :: rat) \<le> of_int (2 ^ 53)" using nle by (simp only: of_int_le_iff)
    ultimately show False by simp
  qed
  have "\<exists>q. x / 2 powi (expo x - 52) = of_int q"
  proof (cases "e \<le> 52")
    case True
    then obtain d :: nat where d: "52 = e + int d" by (metis nonneg_int_cases diff_ge_0_iff_ge add_diff_cancel_left' diff_add_cancel)
    have "x / 2 powi (expo x - 52) = x / 2 powi (e + j - 52)" by (simp only: ex)
    also have "\<dots> = of_int n * 2 powi (52 - e)"
      by (simp add: x_def power_int_diff power_int_add field_simps)
    also have "52 - e = int d" using d by simp
    finally have "x / 2 powi (expo x - 52) = of_int (n * 2 ^ d)" by simp
    then show ?thesis ..
  next
    case False
    with e53 have e: "e = 53" by simp
    from lo have "(2::rat) ^ 53 \<le> of_int n" by (simp add: e)
    then have "(of_int (2 ^ 53) :: rat) \<le> of_int n" by simp
    then have "2 ^ 53 \<le> n" by (simp only: of_int_le_iff)
    with nle have n: "n = 2 ^ 53" by simp
    have "x / 2 powi (expo x - 52) = x / 2 powi (e + j - 52)" by (simp only: ex)
    also have "\<dots> = of_int (2 ^ 52)"
      by (simp add: x_def e n power_int_diff power_int_add field_simps)
    finally have "x / 2 powi (expo x - 52) = of_int (2 ^ 52)" .
    then show ?thesis ..
  qed
  then obtain q where q: "x / 2 powi (expo x - 52) = of_int q" ..
  have "fl x = of_int q * 2 powi (expo x - 52)"
    by (simp add: fl_pos_eq [OF xpos] q round_even_of_int)
  also have "\<dots> = x" using q by (simp add: field_simps)
  finally show ?thesis by (simp add: x_def)
qed

lemma fl_le_pow2': "0 \<le> x \<Longrightarrow> x \<le> 2 powi k \<Longrightarrow> fl x \<le> 2 powi k"
  using fl_le_pow2 [of x k] by (cases "x = 0") (simp_all add: fl_zero less_le)

lemma fl_of_nat: "n \<le> 2 ^ 53 \<Longrightarrow> fl (of_nat n) = of_nat n"
proof (cases "n = 0")
  case True
  then show ?thesis by (simp add: fl_zero)
next
  case False
  assume "n \<le> 2 ^ 53"
  then have "int n \<le> 2 ^ 53" by (metis of_nat_le_iff of_nat_numeral of_nat_power)
  with False fl_repr [of "int n" 0] show ?thesis by simp
qed

lemma fl_numeral: "(numeral w :: int) \<le> 2 ^ 53 \<Longrightarrow> fl (numeral w) = numeral w"
  using fl_repr [of "numeral w" 0] by simp

lemma fl_one: "fl 1 = 1"
  using fl_repr [of 1 0] by simp

lemma fl_idem: "fl (fl x) = fl x"
proof -
  have pos: "fl (fl y) = fl y" if "0 < y" for y
  proof -
    define u :: rat where "u = 2 powi (expo y - 52)"
    define r where "r = round_even (y / u)"
    have upos: "0 < u" by (simp add: u_def)
    have eq: "fl y = of_int r * 2 powi (expo y - 52)"
      by (simp add: fl_pos_eq [OF that] r_def u_def)
    from fl_pos [OF that] have "0 < of_int r * u" by (simp add: eq u_def)
    then have rpos: "0 < r" using upos by (simp add: zero_less_mult_iff)
    from expo_bounds [OF that] have "y < 2 powi (expo y + 1)" by simp
    moreover have "(2::rat) powi (expo y + 1) = 2 ^ 53 * u"
      by (simp add: u_def power_int_diff power_int_add)
    ultimately have "y / u \<le> of_int (2 ^ 53)" using upos by (simp add: field_simps)
    from round_even_upper [OF this] have "r \<le> 2 ^ 53" by (simp add: r_def)
    from fl_repr [OF rpos this] show ?thesis by (simp only: eq)
  qed
  show ?thesis
  proof (cases "0 < x")
    case True
    then show ?thesis by (rule pos)
  next
    case False
    show ?thesis
    proof (cases "x = 0")
      case True
      then show ?thesis by (simp add: fl_zero)
    next
      case False
      with \<open>\<not> 0 < x\<close> have "0 < - x" by simp
      from pos [OF this] show ?thesis by (simp add: fl_minus)
    qed
  qed
qed

lemma fl_evalI:
  assumes "0 < x" "2 powi k \<le> x" "x < 2 powi (k + 1)" "round_even (x / 2 powi (k - 52)) = n"
  shows "fl x = of_int n * 2 powi (k - 52)"
  using assms by (simp add: fl_pos_eq expo_unique [OF assms(1-3)])

lemma fadd_zero_left: "fadd 0 (fl x) = fl x"
  by (simp add: fadd_def fl_idem)

lemma fadd_zero_right: "fadd (fl x) 0 = fl x"
  by (simp add: fadd_def fl_idem)

lemma fsub_neg_iff: "fsub a b < 0 \<longleftrightarrow> a < b"
  by (simp add: fsub_def fl_less_zero_iff)

section \<open>Properties of sorting and grouping\<close>

lemma js_sort_snoc: "js_sort cmp (xs @ [x]) = js_insert cmp x (js_sort cmp xs)"
  by (simp add: js_sort_def)

lemma js_sort_Nil: "js_sort cmp [] = []"
  by (simp add: js_sort_def)

lemma length_js_insert: "length (js_insert cmp x ys) = Suc (length ys)"
  by (induction ys) simp_all

lemma set_js_insert: "set (js_insert cmp x ys) = insert x (set ys)"
  by (induction ys) auto

lemma length_js_sort: "length (js_sort cmp xs) = length xs"
  by (induction xs rule: rev_induct) (simp_all add: js_sort_Nil js_sort_snoc length_js_insert)

lemma set_js_sort: "set (js_sort cmp xs) = set xs"
  by (induction xs rule: rev_induct) (simp_all add: js_sort_Nil js_sort_snoc set_js_insert)

lemma sorted_js_insert:
  fixes key :: "'a \<Rightarrow> 'k::linorder"
  assumes cmp: "\<And>x y. cmp x y < 0 \<longleftrightarrow> key x < key y"
  shows "sorted (map key ys) \<Longrightarrow> sorted (map key (js_insert cmp x ys))"
proof (induction ys)
  case Nil
  then show ?case by simp
next
  case (Cons y ys)
  show ?case
  proof (cases "key x < key y")
    case True
    with Cons.prems show ?thesis by (auto simp: cmp)
  next
    case False
    with Cons show ?thesis by (auto simp: cmp set_js_insert)
  qed
qed

lemma sorted_js_sort:
  fixes key :: "'a \<Rightarrow> 'k::linorder"
  assumes cmp: "\<And>x y. cmp x y < 0 \<longleftrightarrow> key x < key y"
  shows "sorted (map key (js_sort cmp xs))"
  by (induction xs rule: rev_induct)
     (simp_all add: js_sort_Nil js_sort_snoc sorted_js_insert [of cmp key, OF cmp])

lemma filter_js_insert:
  fixes key :: "'a \<Rightarrow> 'k::linorder"
  assumes cmp: "\<And>x y. cmp x y < 0 \<longleftrightarrow> key x < key y"
  shows "sorted (map key ys) \<Longrightarrow>
    filter (\<lambda>z. key z = k) (js_insert cmp x ys) =
    filter (\<lambda>z. key z = k) ys @ (if key x = k then [x] else [])"
proof (induction ys)
  case Nil
  then show ?case by simp
next
  case (Cons y ys)
  show ?case
  proof (cases "key x < key y")
    case True
    from Cons.prems have "\<forall>z \<in> set ys. key y \<le> key z" by simp
    with True have "\<forall>z \<in> set (y # ys). key z \<noteq> key x" by auto
    then have "key x = k \<Longrightarrow> filter (\<lambda>z. key z = k) (y # ys) = []"
      by (auto simp: filter_empty_conv)
    with True show ?thesis by (auto simp: cmp)
  next
    case False
    with Cons show ?thesis by (simp add: cmp)
  qed
qed

lemma filter_js_sort:
  fixes key :: "'a \<Rightarrow> 'k::linorder"
  assumes cmp: "\<And>x y. cmp x y < 0 \<longleftrightarrow> key x < key y"
  shows "filter (\<lambda>z. key z = k) (js_sort cmp xs) = filter (\<lambda>z. key z = k) xs"
proof (induction xs rule: rev_induct)
  case Nil
  then show ?case by (simp add: js_sort_Nil)
next
  case (snoc x xs)
  have "sorted (map key (js_sort cmp xs))" by (rule sorted_js_sort [OF cmp])
  from filter_js_insert [of cmp key, OF cmp this] snoc show ?case
    by (simp add: js_sort_snoc)
qed

lemma first_occ_snoc:
  "first_occ (xs @ [x]) = (if x \<in> set xs then first_occ xs else first_occ xs @ [x])"
  by (simp add: first_occ_def)

lemma set_first_occ: "set (first_occ xs) = set xs"
  by (simp add: first_occ_def)

lemma distinct_first_occ: "distinct (first_occ xs)"
  by (simp add: first_occ_def)

lemma map_of_tabulate:
  "map_of (map (\<lambda>k. (k, f k)) ks) k = (if k \<in> set ks then Some (f k) else None)"
  by (induction ks) auto

lemma update_tabulate_in:
  "k \<in> set ks \<Longrightarrow> distinct ks \<Longrightarrow>
   AList.update k v (map (\<lambda>k. (k, f k)) ks) = map (\<lambda>k'. (k', if k' = k then v else f k')) ks"
  by (induction ks) auto

lemma update_tabulate_notin:
  "k \<notin> set ks \<Longrightarrow>
   AList.update k v (map (\<lambda>k. (k, f k)) ks) = map (\<lambda>k. (k, f k)) ks @ [(k, v)]"
  by (induction ks) auto

lemma update_snoc_same:
  "k \<notin> fst ` set mp \<Longrightarrow> AList.update k v (mp @ [(k, w)]) = mp @ [(k, v)]"
  by (induction mp) auto

lemma group_row_snoc_other:
  "key e \<noteq> k \<Longrightarrow> group_row key init upd (es @ [e]) k = group_row key init upd es k"
  by (simp add: group_row_def group_of_def)

lemma group_row_snoc_new:
  "key e \<notin> key ` set es \<Longrightarrow> group_row key init upd (es @ [e]) (key e) = upd (init e) e"
proof -
  assume "key e \<notin> key ` set es"
  then have "\<forall>x\<in>set es. key x \<noteq> key e" by (metis imageI)
  then have "filter (\<lambda>x. key x = key e) es = []" by (simp add: filter_empty_conv)
  then show ?thesis by (simp add: group_row_def group_of_def)
qed

lemma group_row_snoc_old:
  "key e \<in> key ` set es \<Longrightarrow>
   group_row key init upd (es @ [e]) (key e) = upd (group_row key init upd es (key e)) e"
proof -
  assume "key e \<in> key ` set es"
  then have "filter (\<lambda>x. key x = key e) es \<noteq> []" by (auto simp: filter_empty_conv)
  then show ?thesis by (simp add: group_row_def group_of_def)
qed

lemma group_loop_snoc:
  "group_loop key init upd (es @ [e]) = map_step key init upd (group_loop key init upd es) e"
  by (simp add: group_loop_def)

lemma group_loop_spec: "group_loop key init upd es = group_spec key init upd es"
proof (induction es rule: rev_induct)
  case Nil
  then show ?case by (simp add: group_loop_def group_spec_def first_occ_def)
next
  case (snoc e es)
  define ks where "ks = first_occ (map key es)"
  have IH: "group_loop key init upd es = map (\<lambda>k. (k, group_row key init upd es k)) ks"
    using snoc by (simp add: group_spec_def ks_def)
  have ks: "set ks = key ` set es" "distinct ks"
    by (simp_all add: ks_def set_first_occ distinct_first_occ)
  show ?case
  proof (cases "key e \<in> key ` set es")
    case True
    then have kin: "key e \<in> set ks" by (simp add: ks)
    have "map_step key init upd (group_loop key init upd es) e =
          map (\<lambda>k'. (k', if k' = key e then upd (group_row key init upd es (key e)) e
                          else group_row key init upd es k')) ks"
      using kin ks(2) by (simp add: map_step_def IH map_of_tabulate update_tabulate_in)
    also have "\<dots> = map (\<lambda>k. (k, group_row key init upd (es @ [e]) k)) ks"
      using True by (auto simp: group_row_snoc_old group_row_snoc_other)
    also have "\<dots> = group_spec key init upd (es @ [e])"
      using True by (simp add: group_spec_def first_occ_snoc ks_def)
    finally show ?thesis by (simp add: group_loop_snoc)
  next
    case False
    then have kout: "key e \<notin> set ks" by (simp add: ks)
    have "map_step key init upd (group_loop key init upd es) e =
          map (\<lambda>k. (k, group_row key init upd es k)) ks @ [(key e, upd (init e) e)]"
      using kout
      by (simp add: map_step_def IH map_of_tabulate update_tabulate_notin update_snoc_same
            image_image Let_def map_add_def)
    also have "map (\<lambda>k. (k, group_row key init upd es k)) ks =
               map (\<lambda>k. (k, group_row key init upd (es @ [e]) k)) ks"
    proof (rule map_cong [OF refl])
      fix k assume "k \<in> set ks"
      with kout have "key e \<noteq> k" by blast
      then show "(k, group_row key init upd es k) = (k, group_row key init upd (es @ [e]) k)"
        by (simp add: group_row_snoc_other)
    qed
    also have "\<dots> @ [(key e, upd (init e) e)] = group_spec key init upd (es @ [e])"
      using False by (simp add: group_spec_def first_occ_snoc ks_def group_row_snoc_new)
    finally show ?thesis by (simp add: group_loop_snoc)
  qed
qed

section \<open>Properties of the date range filter\<close>

lemma filterByDate_absent: "filterByDate events None None = events"
  by (simp add: filterByDate_def truthy_def)

lemma filterByDate_from_inclusive:
  "truthy (Some d) \<Longrightarrow> occurred_at e = d \<Longrightarrow> e \<in> set events \<Longrightarrow>
   e \<in> set (filterByDate events (Some d) None)"
  by (simp add: filterByDate_def truthy_def)

text \<open>
  C5. The filter returns its input when both bounds are absent and its lower bound is
  inclusive, but an event inside the last second of \<open>to\<close>'s calendar day is dropped: the
  upper bound \<open>to + 'T23:59:59'\<close> is a proper prefix of the event's timestamp
  \<open>2024-01-03T23:59:59.500Z\<close>, hence lexically smaller. The filter evaluated there:
\<close>

theorem filterByDate_drops_last_second:
  "filterByDate [late_event] None (Some ''2024-01-03'') = []"
  by code_simp

section \<open>Properties of the pricing resolver\<close>

lemma normalise_opus: "normalise ''claude-opus-4-6-20250601'' = ''claude-opus-4-6''"
  by code_simp

lemma lookupModel_opus:
  "lookupModel ''claude-opus-4-6-20250601'' =
     Some (price ''claude-opus-4-6'' ''anthropic'' 5 25 (Some 6.25) (Some 0.5))"
  by (simp add: lookupModel_def normalise_opus PRICING_def startsWith_def price_def)

text \<open>
  C2. The model string \<open>claude-opus-4-6-20250601\<close> normalises to the table prefix
  \<open>claude-opus-4-6\<close>, whose input and output rates are 5 and 25, and the cost of
  1,000,000 input and 1,000,000 output tokens with no cache tokens is exactly 30; every
  binary64 operation on the way is exact.
\<close>

theorem computeCostUSD_opus_scenario:
  "normalise ''claude-opus-4-6-20250601'' = ''claude-opus-4-6'' \<and>
   map_option p_prefix (lookupModel ''claude-opus-4-6-20250601'') = Some ''claude-opus-4-6'' \<and>
   map_option p_input (lookupModel ''claude-opus-4-6-20250601'') = Some 5 \<and>
   map_option p_output (lookupModel ''claude-opus-4-6-20250601'') = Some 25 \<and>
   computeCostUSD ''claude-opus-4-6-20250601'' (Some 1000000) (Some 1000000) (Some 0) (Some 0)
     = 30"
  by (simp add: computeCostUSD_def lookupModel_opus normalise_opus price_def or0_def
        rate_or0_def fadd_def fmul_def fdiv_def fl_numeral fl_one fl_zero)

lemma normalise_twice_example:
  "normalise ''x-20250101-20250101'' = ''x-20250101'' \<and> normalise ''x-20250101'' = ''x''"
  by code_simp

lemma fl_le_128: "0 \<le> x \<Longrightarrow> x \<le> 128 \<Longrightarrow> fl x \<le> 128"
  using fl_le_pow2' [of x 7] by simp

lemma price_rates_ok:
  "0 \<le> i \<Longrightarrow> i \<le> 128 \<Longrightarrow> 0 \<le> out \<Longrightarrow> out \<le> 128 \<Longrightarrow>
   (case cw of None \<Rightarrow> True | Some x \<Rightarrow> 0 \<le> x \<and> x \<le> 128) \<Longrightarrow>
   (case cr of None \<Rightarrow> True | Some x \<Rightarrow> 0 \<le> x \<and> x \<le> 128) \<Longrightarrow>
   rates_ok (price pre prov i out cw cr)"
  by (simp add: rates_ok_def price_def rate_or0_def fl_nonneg fl_le_128 split: option.splits)

lemma PRICING_rates_ok: "list_all rates_ok PRICING"
  by (simp add: PRICING_def price_rates_ok)

lemma lookupModel_in_table: "lookupModel m = Some e \<Longrightarrow> e \<in> set PRICING"
  by (auto simp: lookupModel_def find_Some_iff split: if_splits)

lemma lookupModel_rates_ok: "lookupModel m = Some e \<Longrightarrow> rates_ok e"
  using PRICING_rates_ok lookupModel_in_table [of m e] by (simp add: list_all_iff)

text \<open>One term of the sum: \<open>tokens / M * rate\<close>.\<close>

lemma term_bounds:
  assumes n: "n \<le> 2 ^ 1024" and r0: "0 \<le> r" and r1: "r \<le> 128"
  shows "0 \<le> fmul (fdiv (of_nat n) 1000000) r \<and> fmul (fdiv (of_nat n) 1000000) r \<le> 2 powi 1012"
proof -
  define q where "q = fdiv (of_nat n) 1000000"
  have "rat_of_nat n \<le> of_nat (2 ^ 1024)" using n by (simp only: of_nat_le_iff)
  then have "rat_of_nat n / 1000000 \<le> 2 powi 1005" by simp
  then have q1: "q \<le> 2 powi 1005" unfolding q_def fdiv_def by (intro fl_le_pow2') simp_all
  have q0: "0 \<le> q" by (simp add: q_def fdiv_def fl_nonneg)
  from q0 q1 r0 r1 have "q * r \<le> 2 powi 1005 * 128" by (intro mult_mono) simp_all
  also have "\<dots> = 2 powi 1012" by simp
  finally have "q * r \<le> 2 powi 1012" .
  moreover have "0 \<le> q * r" using q0 r0 by simp
  ultimately show ?thesis
    unfolding fmul_def q_def [symmetric] by (intro conjI fl_nonneg fl_le_pow2')
qed

lemma fadd_bounds:
  assumes "0 \<le> a" "a \<le> 2 powi k" "0 \<le> b" "b \<le> 2 powi k"
  shows "0 \<le> fadd a b \<and> fadd a b \<le> 2 powi (k + 1)"
proof -
  from assms have "a + b \<le> 2 powi (k + 1)" by (simp add: power_int_add)
  moreover from assms have "0 \<le> a + b" by simp
  ultimately show ?thesis
    unfolding fadd_def by (intro conjI fl_nonneg fl_le_pow2')
qed

lemma computeCostUSD_Some:
  "lookupModel m = Some e \<Longrightarrow>
   computeCostUSD m i out cw cr =
     fadd (fadd (fadd (fadd 0 (fmul (fdiv (of_nat (or0 i)) 1000000) (p_input e)))
                   (fmul (fdiv (of_nat (or0 out)) 1000000) (p_output e)))
             (fmul (fdiv (of_nat (or0 cw)) 1000000) (rate_or0 (p_cache_write e))))
       (fmul (fdiv (of_nat (or0 cr)) 1000000) (rate_or0 (p_cache_read e)))"
  by (simp add: computeCostUSD_def Let_def)

lemma computeCostUSD_None: "lookupModel m = None \<Longrightarrow> computeCostUSD m i out cw cr = 0"
  by (simp add: computeCostUSD_def)

lemma computeCostUSD_bounds:
  assumes "or0 i \<le> 2 ^ 1024" "or0 out \<le> 2 ^ 1024"
    and "or0 cw \<le> 2 ^ 1024" "or0 cr \<le> 2 ^ 1024"
  shows "0 \<le> computeCostUSD m i out cw cr \<and> computeCostUSD m i out cw cr \<le> 2 powi 1015"
proof (cases "lookupModel m")
  case None
  then show ?thesis by (simp add: computeCostUSD_None)
next
  case (Some e)
  from lookupModel_rates_ok [OF Some] have ok: "rates_ok e" .
  define t1 where "t1 = fmul (fdiv (of_nat (or0 i)) 1000000) (p_input e)"
  define t2 where "t2 = fmul (fdiv (of_nat (or0 out)) 1000000) (p_output e)"
  define t3 where "t3 = fmul (fdiv (of_nat (or0 cw)) 1000000) (rate_or0 (p_cache_write e))"
  define t4 where "t4 = fmul (fdiv (of_nat (or0 cr)) 1000000) (rate_or0 (p_cache_read e))"
  have b1: "0 \<le> t1 \<and> t1 \<le> 2 powi 1012"
    unfolding t1_def using ok assms(1) by (intro term_bounds) (simp_all add: rates_ok_def)
  have b2: "0 \<le> t2 \<and> t2 \<le> 2 powi 1012"
    unfolding t2_def using ok assms(2) by (intro term_bounds) (simp_all add: rates_ok_def)
  have b3: "0 \<le> t3 \<and> t3 \<le> 2 powi 1012"
    unfolding t3_def using ok assms(3) by (intro term_bounds) (simp_all add: rates_ok_def)
  have b4: "0 \<le> t4 \<and> t4 \<le> 2 powi 1012"
    unfolding t4_def using ok assms(4) by (intro term_bounds) (simp_all add: rates_ok_def)
  have c1: "0 \<le> fadd 0 t1 \<and> fadd 0 t1 \<le> 2 powi 1012"
    unfolding fadd_def using b1 by (intro conjI fl_nonneg fl_le_pow2') simp_all
  have t4': "t4 \<le> 2 powi 1014" using b4 powi_mono [of 1012 1014] by simp
  have c2: "0 \<le> fadd (fadd 0 t1) t2 \<and> fadd (fadd 0 t1) t2 \<le> 2 powi 1013"
    using fadd_bounds [of "fadd 0 t1" 1012 t2] c1 b2 by simp
  have c3: "0 \<le> fadd (fadd (fadd 0 t1) t2) t3 \<and> fadd (fadd (fadd 0 t1) t2) t3 \<le> 2 powi 1014"
    using fadd_bounds [of "fadd (fadd 0 t1) t2" 1013 t3] c2 b3 powi_mono [of 1012 1013] by simp
  have c4: "0 \<le> fadd (fadd (fadd (fadd 0 t1) t2) t3) t4
            \<and> fadd (fadd (fadd (fadd 0 t1) t2) t3) t4 \<le> 2 powi 1015"
    using fadd_bounds [of "fadd (fadd (fadd 0 t1) t2) t3" 1014 t4] c3 b4 t4' by simp
  then show ?thesis
    by (simp only: computeCostUSD_Some [OF Some] t1_def t2_def t3_def t4_def)
qed

lemma null_write:
  "lookupModel m = Some e \<Longrightarrow> p_cache_write e = None \<Longrightarrow>
   computeCostUSD m i out cw cr = computeCostUSD m i out None cr"
  by (simp add: computeCostUSD_Some rate_or0_def fmul_def fl_zero or0_def fdiv_def)

lemma null_read:
  "lookupModel m = Some e \<Longrightarrow> p_cache_read e = None \<Longrightarrow>
   computeCostUSD m i out cw cr = computeCostUSD m i out cw None"
  by (simp add: computeCostUSD_Some rate_or0_def fmul_def fl_zero or0_def fdiv_def)

lemma lookupModel_unknown: "lookupModel ''unknown-model-x'' = None"
proof -
  have n: "normalise ''unknown-model-x'' = ''unknown-model-x''" by code_simp
  show ?thesis
    by (simp add: lookupModel_def n PRICING_def startsWith_def price_def)
qed

lemma lookupModel_gpt4_turbo:
  "lookupModel ''gpt-4-turbo'' = Some (price ''gpt-4-turbo'' ''openai'' 10 30 None None)"
proof -
  have n: "normalise ''gpt-4-turbo'' = ''gpt-4-turbo''" by code_simp
  show ?thesis
    by (simp add: lookupModel_def n PRICING_def startsWith_def price_def)
qed

text \<open>
  C8. \<open>computeCostUSD\<close> has no failing branch: for every model string and all token
  counts in the range of the finite binary64 numbers (at most \<open>2^1024\<close>, absent counts
  being 0) the result is non-negative and finite, that is below the overflow threshold
  \<open>2^1024\<close> of binary64;
  a model that matches no table entry costs 0; and a \<open>null\<close> cache rate contributes 0: the
  cost is what it is with no tokens of that category.
\<close>

theorem computeCostUSD_total:
  assumes "or0 i \<le> 2 ^ 1024" "or0 out \<le> 2 ^ 1024"
    and "or0 cw \<le> 2 ^ 1024" "or0 cr \<le> 2 ^ 1024"
  shows "0 \<le> computeCostUSD m i out cw cr \<and> computeCostUSD m i out cw cr < 2 ^ 1024 \<and>
    (lookupModel m = None \<longrightarrow> computeCostUSD m i out cw cr = 0) \<and>
    (\<forall>e. lookupModel m = Some e \<and> p_cache_write e = None \<longrightarrow>
       computeCostUSD m i out cw cr = computeCostUSD m i out None cr) \<and>
    (\<forall>e. lookupModel m = Some e \<and> p_cache_read e = None \<longrightarrow>
       computeCostUSD m i out cw cr = computeCostUSD m i out cw None)"
proof -
  from computeCostUSD_bounds [OF assms, of m]
  have lo: "0 \<le> computeCostUSD m i out cw cr" and up: "computeCostUSD m i out cw cr \<le> 2 powi 1015"
    by simp_all
  have "(2::rat) powi 1015 < 2 ^ 1024" by simp
  with up have fin: "computeCostUSD m i out cw cr < 2 ^ 1024" by (rule le_less_trans)
  from lo fin show ?thesis
    by (auto simp: computeCostUSD_None intro: null_write null_read)
qed

theorem computeCostUSD_total_witness:
  "or0 (Some 1000) \<le> 2 ^ 1024 \<and> or0 None \<le> 2 ^ 1024 \<and>
   lookupModel ''unknown-model-x'' = None \<and>
   computeCostUSD ''unknown-model-x'' (Some 1000) (Some 1000) None None = 0 \<and>
   0 \<le> computeCostUSD ''gpt-4-turbo'' (Some 1000) (Some 1000) (Some 1000) None \<and>
   computeCostUSD ''gpt-4-turbo'' (Some 1000) (Some 1000) (Some 1000) None < 2 ^ 1024 \<and>
   computeCostUSD ''gpt-4-turbo'' (Some 1000) (Some 1000) (Some 1000) None =
     computeCostUSD ''gpt-4-turbo'' (Some 1000) (Some 1000) None None"
proof -
  have h: "or0 (Some 1000) \<le> 2 ^ 1024" "or0 None \<le> 2 ^ 1024" by (simp_all add: or0_def)
  have w: "p_cache_write (price ''gpt-4-turbo'' ''openai'' 10 30 None None) = None"
    by (simp add: price_def)
  from computeCostUSD_total [OF h(1) h(1) h(2) h(2), of "''unknown-model-x''"]
       computeCostUSD_total [OF h(1) h(1) h(1) h(2), of "''gpt-4-turbo''"]
       lookupModel_unknown lookupModel_gpt4_turbo w h
  show ?thesis by simp
qed

text \<open>
  Lower-casing on the code units of a model name and on four code units of the Latin-1
  block (capital E acute, the multiplication sign, sharp s, capital thorn).
\<close>

lemma toLowerCase_examples:
  "toLowerCase ''Claude-OPUS-4-6'' = ''claude-opus-4-6''"
  "toLowerCase [CHR 0xC9, CHR 0xD7, CHR 0xDF, CHR 0xDE] = [CHR 0xE9, CHR 0xD7, CHR 0xDF, CHR 0xFE]"
  by code_simp+

text \<open>A dashed suffix before an eight-digit one goes in one pass; the other order does not.\<close>

lemma normalise_two_forms_example:
  "normalise ''x-2025-01-01-20250101'' = ''x''"
  "normalise ''x-20250101-2025-01-01'' = ''x-20250101''"
  by code_simp+

lemma of_char_lower:
  "(of_char (lower_char c) :: nat) =
     (if (65 \<le> (of_char c :: nat) \<and> (of_char c :: nat) \<le> 90) \<or>
         (192 \<le> (of_char c :: nat) \<and> (of_char c :: nat) \<le> 222 \<and> (of_char c :: nat) \<noteq> 215)
      then of_char c + 32 else of_char c)"
proof -
  have "(n + 32) mod 256 = n + 32" if "n \<le> 222" for n :: nat
    using that by simp
  then show ?thesis
    by (simp add: lower_char_def Let_def)
qed

lemma lower_char_idem: "lower_char (lower_char c) = lower_char c"
proof -
  have "(of_char (lower_char (lower_char c)) :: nat) = of_char (lower_char c)"
    by (simp add: of_char_lower [of "lower_char c"]) (simp add: of_char_lower [of c])
  then show ?thesis by (simp only: of_char_eq_iff)
qed

lemma is_digit_code: "is_digit c = (48 \<le> (of_char c :: nat) \<and> (of_char c :: nat) \<le> 57)"
  by (simp add: is_digit_def less_eq_char_def)

lemma is_digit_lower: "is_digit (lower_char c) = is_digit c"
  by (simp add: is_digit_code of_char_lower)

lemma lower_char_hyphen: "(lower_char c = CHR ''-'') = (c = CHR ''-'')"
proof -
  have "((of_char (lower_char c) :: nat) = of_char CHR ''-'') = ((of_char c :: nat) = of_char CHR ''-'')"
    by (simp add: of_char_lower)
  then show ?thesis by (simp only: of_char_eq_iff)
qed

lemma toLowerCase_idem: "toLowerCase (toLowerCase s) = toLowerCase s"
  by (simp add: toLowerCase_def lower_char_idem)

lemma toLowerCase_strip:
  "toLowerCase s = s \<Longrightarrow> toLowerCase (strip_suffix pat n s) = strip_suffix pat n s"
  by (simp add: strip_suffix_def toLowerCase_def take_map [symmetric])

lemma toLowerCase_normalise: "toLowerCase (normalise s) = normalise s"
  by (simp add: normalise_def toLowerCase_strip toLowerCase_idem)

lemma strip_suffix_id:
  "\<not> (n \<le> length s \<and> pat (drop (length s - n) s)) \<Longrightarrow> strip_suffix pat n s = s"
  unfolding strip_suffix_def by (simp only: if_False)

lemma digits_lower: "list_all is_digit (map lower_char xs) = list_all is_digit xs"
  by (induction xs) (simp_all add: is_digit_lower)

lemma hyphen_lower: "(map lower_char xs = ''-'') = (xs = ''-'')"
  by (cases xs) (simp_all add: lower_char_hyphen)

lemma date8_lower: "date8 (toLowerCase t) = date8 t"
  by (simp add: date8_def toLowerCase_def drop_map take_map digits_lower hyphen_lower)

lemma date_dashed_lower: "date_dashed (toLowerCase t) = date_dashed t"
  by (simp add: date_dashed_def toLowerCase_def drop_map take_map digits_lower hyphen_lower)

lemma date_suffixed_lower: "date_suffixed (toLowerCase b) = date_suffixed b"
proof -
  have "drop n (toLowerCase b) = toLowerCase (drop n b)" for n
    by (simp add: toLowerCase_def drop_map)
  moreover have "length (toLowerCase b) = length b" by (simp add: toLowerCase_def)
  ultimately show ?thesis by (simp add: date_suffixed_def date8_lower date_dashed_lower)
qed

lemma one_pass_suffix_lower: "one_pass_suffix (toLowerCase d) = one_pass_suffix d"
proof -
  have "take n (toLowerCase d) = toLowerCase (take n d)"
       "drop n (toLowerCase d) = toLowerCase (drop n d)" for n
    by (simp_all add: toLowerCase_def drop_map take_map)
  moreover have "(toLowerCase d = []) = (d = [])" by (simp add: toLowerCase_def)
  ultimately show ?thesis by (simp add: one_pass_suffix_def date8_lower date_dashed_lower)
qed

lemma strip_suffix_append: "pat d \<Longrightarrow> length d = n \<Longrightarrow> strip_suffix pat n (x @ d) = x"
  by (simp add: strip_suffix_def)

lemma date8_length: "date8 d \<Longrightarrow> length d = 9"
  by (simp add: date8_def)

lemma date_dashed_length: "date_dashed d \<Longrightarrow> length d = 11"
  by (simp add: date_dashed_def)

text \<open>The last nine code units of a dashed date start with a digit, not with a hyphen.\<close>

lemma date_dashed_not_date8:
  assumes "date_dashed d"
  shows "\<not> date8 (drop 2 d)"
proof
  assume a: "date8 (drop 2 d)"
  from assms have len: "length d = 11" and dig: "list_all is_digit (take 4 (drop 1 d))"
    by (simp_all add: date_dashed_def)
  from len have "take 4 (drop 1 d) ! 1 = d ! 2" by (simp add: numeral_2_eq_2)
  moreover from dig len have "is_digit (take 4 (drop 1 d) ! 1)" by (simp add: list_all_length)
  ultimately have "is_digit (d ! 2)" by simp
  moreover from a len have "take 1 (drop 2 d) = ''-''" by (simp add: date8_def)
  with len have "d ! 2 = CHR ''-''" by (simp add: take_Suc_conv_app_nth)
  ultimately show False by (simp add: is_digit_def)
qed

lemma strip8_dashed:
  assumes "date_dashed d"
  shows "strip_suffix date8 9 (x @ d) = x @ d"
proof -
  from assms have len: "length d = 11" by (rule date_dashed_length)
  then have "drop (length (x @ d) - 9) (x @ d) = drop 2 d" by simp
  with date_dashed_not_date8 [OF assms] show ?thesis
    by (simp only: strip_suffix_def) simp
qed

lemma not_suffixed_strip:
  assumes "\<not> date_suffixed x"
  shows "strip_suffix date8 9 x = x" "strip_suffix date_dashed 11 x = x"
  using assms by (auto simp: date_suffixed_def strip_suffix_def)

lemma strips_one_pass:
  assumes x: "\<not> date_suffixed x" and d: "one_pass_suffix d"
  shows "strip_suffix date_dashed 11 (strip_suffix date8 9 (x @ d)) = x"
proof -
  consider "d = []" | "date8 d" | "date_dashed d" | "date_dashed (take 11 d)" "date8 (drop 11 d)"
    using d by (auto simp: one_pass_suffix_def)
  then show ?thesis
  proof cases
    case 1
    then show ?thesis by (simp add: not_suffixed_strip [OF x])
  next
    case 2
    then show ?thesis
      by (simp add: strip_suffix_append date8_length not_suffixed_strip [OF x])
  next
    case 3
    then show ?thesis
      by (simp add: strip8_dashed strip_suffix_append date_dashed_length)
  next
    case 4
    have "x @ d = (x @ take 11 d) @ drop 11 d" by simp
    then have "strip_suffix date8 9 (x @ d) = x @ take 11 d"
      using strip_suffix_append [of date8 "drop 11 d" 9 "x @ take 11 d"] 4(2) date8_length [OF 4(2)]
      by simp
    then show ?thesis
      using strip_suffix_append [of date_dashed "take 11 d" 11 x] 4(1) date_dashed_length [OF 4(1)]
      by simp
  qed
qed

lemma normalise_one_pass:
  assumes "\<not> date_suffixed b" and "one_pass_suffix d"
  shows "normalise (b @ d) = toLowerCase b"
proof -
  have "toLowerCase (b @ d) = toLowerCase b @ toLowerCase d" by (simp add: toLowerCase_def)
  with strips_one_pass [of "toLowerCase b" "toLowerCase d"] assms show ?thesis
    by (simp add: normalise_def date_suffixed_lower one_pass_suffix_lower)
qed

lemma normalise_fixpoint:
  assumes "\<not> date_suffixed b"
  shows "normalise (toLowerCase b) = toLowerCase b"
proof -
  have "one_pass_suffix []" by (simp add: one_pass_suffix_def)
  with normalise_one_pass [of "toLowerCase b" "[]"] assms show ?thesis
    by (simp add: date_suffixed_lower toLowerCase_idem)
qed

lemma strip_suffix_length: "length (strip_suffix pat n s) \<le> length s"
  by (simp add: strip_suffix_def)

lemma normalise_shrinks:
  assumes low: "toLowerCase v = v" and suf: "date_suffixed v"
  shows "length (normalise v) < length v"
proof (cases "9 \<le> length v \<and> date8 (drop (length v - 9) v)")
  case True
  then have "length (strip_suffix date8 9 v) = length v - 9" "0 < length v"
    by (auto simp: strip_suffix_def)
  then have "length (strip_suffix date8 9 v) < length v" by simp
  with strip_suffix_length [of date_dashed 11 "strip_suffix date8 9 v"] show ?thesis
    by (simp add: normalise_def low)
next
  case False
  then have "strip_suffix date8 9 v = v" by (rule strip_suffix_id)
  moreover from False suf have "11 \<le> length v \<and> date_dashed (drop (length v - 11) v)"
    by (auto simp: date_suffixed_def)
  then have "length (strip_suffix date_dashed 11 v) = length v - 11" "0 < length v"
    by (auto simp: strip_suffix_def)
  then have "length (strip_suffix date_dashed 11 v) < length v" by simp
  ultimately show ?thesis by (simp add: normalise_def low)
qed

lemma strip_suffix_split:
  "strip_suffix pat n t = t \<or> (\<exists>d. t = strip_suffix pat n t @ d \<and> pat d \<and> length d = n)"
proof (cases "n \<le> length t \<and> pat (drop (length t - n) t)")
  case True
  then have "t = strip_suffix pat n t @ drop (length t - n) t \<and> pat (drop (length t - n) t)
      \<and> length (drop (length t - n) t) = n"
    by (simp add: strip_suffix_def)
  then show ?thesis by blast
next
  case False
  then show ?thesis by (simp add: strip_suffix_id)
qed

lemma strips_split:
  "\<exists>d. t = strip_suffix date_dashed 11 (strip_suffix date8 9 t) @ d \<and> one_pass_suffix d"
proof -
  define u where "u = strip_suffix date8 9 t"
  define v where "v = strip_suffix date_dashed 11 u"
  from strip_suffix_split [of date8 9 t]
  consider "u = t" | d2 where "t = u @ d2" "date8 d2" "length d2 = 9"
    unfolding u_def by metis
  then show ?thesis
  proof cases
    case 1
    from strip_suffix_split [of date_dashed 11 u]
    consider "v = u" | d1 where "u = v @ d1" "date_dashed d1" "length d1 = 11"
      unfolding v_def by metis
    then show ?thesis
    proof cases
      case 1
      with \<open>u = t\<close> have "t = v @ []" by simp
      moreover have "one_pass_suffix []" by (simp add: one_pass_suffix_def)
      ultimately show ?thesis unfolding u_def v_def by blast
    next
      case 2
      with \<open>u = t\<close> have "t = v @ d1" "one_pass_suffix d1" by (simp_all add: one_pass_suffix_def)
      then show ?thesis unfolding u_def v_def by blast
    qed
  next
    case 2
    from strip_suffix_split [of date_dashed 11 u]
    consider "v = u" | d1 where "u = v @ d1" "date_dashed d1" "length d1 = 11"
      unfolding v_def by metis
    then show ?thesis
    proof cases
      case 1
      with 2 have "t = v @ d2" "one_pass_suffix d2" by (simp_all add: one_pass_suffix_def)
      then show ?thesis unfolding u_def v_def by blast
    next
      case d: 2
      with 2 have "t = v @ (d1 @ d2)" "one_pass_suffix (d1 @ d2)"
        by (simp_all add: one_pass_suffix_def)
      then show ?thesis unfolding u_def v_def by blast
    qed
  qed
qed

lemma normalise_split:
  "\<exists>b d. s = b @ d \<and> toLowerCase b = normalise s \<and> one_pass_suffix d"
proof -
  from strips_split [of "toLowerCase s"]
  obtain d' where t: "toLowerCase s = normalise s @ d'" and d': "one_pass_suffix d'"
    by (auto simp: normalise_def)
  define k where "k = length (normalise s)"
  have "toLowerCase (take k s) = take k (toLowerCase s)"
       "toLowerCase (drop k s) = drop k (toLowerCase s)"
    by (simp_all add: toLowerCase_def take_map drop_map)
  with t have "toLowerCase (take k s) = normalise s" "toLowerCase (drop k s) = d'"
    by (simp_all add: k_def)
  with d' have "s = take k s @ drop k s \<and> toLowerCase (take k s) = normalise s \<and>
      one_pass_suffix (drop k s)"
    using one_pass_suffix_lower [of "drop k s"] by simp
  then show ?thesis by blast
qed

text \<open>
  C3 (as amended). One application of the normalisation lower-cases the name and removes
  one trailing \<open>-YYYYMMDD\<close>, then one trailing \<open>-YYYY-MM-DD\<close>. On an input that is a stem
  \<open>b\<close> not ending in a date suffix, followed by a tail \<open>d\<close> that is empty, one date suffix
  of either form, or a \<open>-YYYY-MM-DD\<close> followed by a \<open>-YYYYMMDD\<close>, it yields the lower-cased
  stem, and a second application changes nothing; and the normalisation is idempotent on
  an input exactly when the input is of this shape.
\<close>

theorem normalise_idempotent_iff:
  "(\<not> date_suffixed b \<and> one_pass_suffix d \<longrightarrow>
      normalise (b @ d) = toLowerCase b \<and> normalise (normalise (b @ d)) = normalise (b @ d)) \<and>
   ((normalise (normalise s) = normalise s) =
      (\<exists>b d. s = b @ d \<and> \<not> date_suffixed b \<and> one_pass_suffix d))"
proof (intro conjI impI)
  assume a: "\<not> date_suffixed b \<and> one_pass_suffix d"
  then show "normalise (b @ d) = toLowerCase b" by (simp add: normalise_one_pass)
  with a show "normalise (normalise (b @ d)) = normalise (b @ d)"
    by (simp add: normalise_fixpoint)
next
  show "(normalise (normalise s) = normalise s) =
      (\<exists>b d. s = b @ d \<and> \<not> date_suffixed b \<and> one_pass_suffix d)"
  proof
    assume idem: "normalise (normalise s) = normalise s"
    have "\<not> date_suffixed (normalise s)"
    proof
      assume "date_suffixed (normalise s)"
      from normalise_shrinks [OF toLowerCase_normalise this] idem show False by simp
    qed
    moreover from normalise_split [of s]
    obtain b d where "s = b @ d" "toLowerCase b = normalise s" "one_pass_suffix d" by blast
    ultimately have "s = b @ d \<and> \<not> date_suffixed b \<and> one_pass_suffix d"
      using date_suffixed_lower [of b] by simp
    then show "\<exists>b d. s = b @ d \<and> \<not> date_suffixed b \<and> one_pass_suffix d" by blast
  next
    assume "\<exists>b d. s = b @ d \<and> \<not> date_suffixed b \<and> one_pass_suffix d"
    then obtain b d where "s = b @ d" "\<not> date_suffixed b" "one_pass_suffix d" by blast
    then show "normalise (normalise s) = normalise s"
      by (simp add: normalise_one_pass normalise_fixpoint)
  qed
qed

text \<open>The dated name \<open>claude-opus-4-6-20250601\<close>: stem \<open>claude-opus-4-6\<close>, one suffix.\<close>

theorem normalise_idempotent_witness:
  "\<not> date_suffixed ''claude-opus-4-6'' \<and> one_pass_suffix ''-20250601'' \<and>
   normalise ''claude-opus-4-6-20250601'' = ''claude-opus-4-6'' \<and>
   normalise (normalise ''claude-opus-4-6-20250601'') = normalise ''claude-opus-4-6-20250601''"
proof -
  have h: "\<not> date_suffixed ''claude-opus-4-6''" "one_pass_suffix ''-20250601''" by code_simp+
  have l: "toLowerCase ''claude-opus-4-6'' = ''claude-opus-4-6''"
    "normalise ''claude-opus-4-6'' = ''claude-opus-4-6''" by code_simp+
  from normalise_idempotent_iff [of "''claude-opus-4-6''" "''-20250601''"] h l
  show ?thesis by simp
qed

text \<open>
  C3 (as stated) fails on a name that carries the suffix \<open>-YYYYMMDD\<close> twice:
  \<open>x-20250101-20250101\<close> normalises to \<open>x-20250101\<close>, which normalises to \<open>x\<close>.
\<close>

theorem normalise_not_idempotent:
  "\<not> (\<forall>s. normalise (normalise s) = normalise s)"
proof
  assume "\<forall>s. normalise (normalise s) = normalise s"
  then have "normalise (normalise ''x-20250101-20250101'') = normalise ''x-20250101-20250101''"
    by blast
  then show False by (simp add: normalise_twice_example)
qed

section \<open>Properties of the top-sessions query\<close>

lemma js_sort_map:
  assumes "\<And>a b. cmp' (f a) (f b) = cmp a b"
  shows "map f (js_sort cmp xs) = js_sort cmp' (map f xs)"
proof -
  have ins: "map f (js_insert cmp x ys) = js_insert cmp' (f x) (map f ys)" for x ys
    by (induction ys) (simp_all add: assms)
  show ?thesis
    by (induction xs rule: rev_induct) (simp_all add: js_sort_Nil js_sort_snoc ins)
qed

lemma js_slice_take: "0 \<le> n \<Longrightarrow> js_slice xs 0 n = take (nat n) xs"
  by (simp add: js_slice_def Let_def min_def)

lemma js_slice_drop_last:
  "n < 0 \<Longrightarrow> js_slice xs 0 n = take (length xs - nat (- n)) xs"
proof -
  assume "n < 0"
  then have "nat (max (int (length xs) + n) 0) = length xs - nat (- n)" by arith
  with \<open>n < 0\<close> show ?thesis by (simp add: js_slice_def Let_def)
qed

lemma js_slice_map: "map f (js_slice xs a b) = js_slice (map f xs) a b"
  by (simp add: js_slice_def Let_def take_map drop_map)

lemma js_slice_0_take: "js_slice xs 0 n = take (length (js_slice xs 0 n)) xs"
  by (simp add: js_slice_def Let_def min_def)

lemma foldl_set_add: "foldl (\<lambda>ms m. set_add m ms) [] xs = first_occ xs"
  by (induction xs rule: rev_induct)
     (simp_all add: first_occ_snoc set_add_def set_first_occ, simp add: first_occ_def)

lemma foldl_min_Min:
  fixes a :: "'a::linorder"
  shows "foldl (\<lambda>m t. if t < m then t else m) a xs = Min (set (a # xs))"
proof (induction xs arbitrary: a)
  case Nil
  then show ?case by simp
next
  case (Cons x xs)
  have "Min (set ((if x < a then x else a) # xs)) = Min (set (a # x # xs))"
  proof (cases "set xs = {}")
    case True
    then show ?thesis by (auto simp: min_def)
  next
    case False
    then show ?thesis
      by (simp add: Min_insert2 min_def) (auto simp: min_def)
  qed
  with Cons show ?case by simp
qed

lemma foldl_max_Max:
  fixes a :: "'a::linorder"
  shows "foldl (\<lambda>m t. if t > m then t else m) a xs = Max (set (a # xs))"
proof (induction xs arbitrary: a)
  case Nil
  then show ?case by simp
next
  case (Cons x xs)
  have "Max (set ((if x > a then x else a) # xs)) = Max (set (a # x # xs))"
  proof (cases "set xs = {}")
    case True
    then show ?thesis by (auto simp: max_def)
  next
    case False
    then show ?thesis
      by (simp add: max_def) (auto simp: max_def)
  qed
  with Cons show ?case by simp
qed

lemma foldl_session_step:
  "foldl session_step s G =
     s \<lparr> s_requests := s_requests s + length G,
         s_input_tokens := foldl fadd (s_input_tokens s) (map (\<lambda>e. of_nat (input_tokens e)) G),
         s_output_tokens := foldl fadd (s_output_tokens s) (map (\<lambda>e. of_nat (output_tokens e)) G),
         s_cache_creation_tokens :=
           foldl fadd (s_cache_creation_tokens s) (map (\<lambda>e. of_nat (cache_creation_tokens e)) G),
         s_cache_read_tokens := foldl fadd (s_cache_read_tokens s) (map (\<lambda>e. of_nat (cache_read_tokens e)) G),
         s_cost_usd := foldl fadd (s_cost_usd s) (map cost_usd G),
         s_started_at := foldl (\<lambda>m t. if t < m then t else m) (s_started_at s)
                           (map occurred_at G),
         s_ended_at := foldl (\<lambda>m t. if t > m then t else m) (s_ended_at s)
                         (map occurred_at G),
         s_models := foldl (\<lambda>ms m. set_add m ms) (s_models s) (map model G) \<rparr>"
  by (induction G arbitrary: s) (simp_all add: session_step_def)

lemma session_out_group_row:
  assumes "G \<noteq> []"
  shows "session_out (foldl session_step (session_init (hd G)) G) = session_summary G"
proof -
  from assms have hd_in: "occurred_at (hd G) \<in> set (map occurred_at G)" by simp
  then have ins: "insert (occurred_at (hd G)) (occurred_at ` set G) = occurred_at ` set G"
    by auto
  show ?thesis
    by (simp add: foldl_session_step session_out_def session_init_def session_summary_def
          foldl_min_Min foldl_max_Max foldl_set_add ins)
qed

lemma s_cost_session_out: "s_cost_usd (session_out s) = s_cost_usd s"
  by (simp add: session_out_def)

lemma group_of_nonempty: "k \<in> key ` set es \<Longrightarrow> group_of key es k \<noteq> []"
  by (auto simp: group_of_def filter_empty_conv)

lemma computeTopSessions_ranked:
  "computeTopSessions events from to limit_arg =
     js_slice (ranked_sessions events from to) 0 (or_default limit_arg 20)"
proof -
  define filtered where "filtered = filterByDate events from to"
  define ks where "ks = first_occ (map session_key filtered)"
  define cmp where "cmp = (\<lambda>(a :: string list session) (b :: string list session).
                    fsub (s_cost_usd b) (s_cost_usd a))"
  define cmp' where "cmp' = (\<lambda>(a :: string session) (b :: string session).
                     fsub (s_cost_usd b) (s_cost_usd a))"
  have rows: "map session_out (map_values (group_loop session_key session_init session_step filtered))
      = map (\<lambda>k. session_summary (group_of session_key filtered k)) ks"
  proof -
    have "map session_out (map_values (group_loop session_key session_init session_step filtered))
       = map (\<lambda>k. session_out (group_row session_key session_init session_step filtered k)) ks"
      by (simp add: group_loop_spec group_spec_def map_values_def ks_def comp_def)
    also have "\<dots> = map (\<lambda>k. session_summary (group_of session_key filtered k)) ks"
    proof (rule map_cong [OF refl])
      fix k assume "k \<in> set ks"
      then have "k \<in> session_key ` set filtered" by (simp add: ks_def set_first_occ)
      from group_of_nonempty [OF this]
      show "session_out (group_row session_key session_init session_step filtered k)
            = session_summary (group_of session_key filtered k)"
        by (simp add: group_row_def session_out_group_row)
    qed
    finally show ?thesis .
  qed
  define n where "n = or_default limit_arg 20"
  have "computeTopSessions events from to limit_arg =
        map session_out (js_slice (js_sort cmp
          (map_values (group_loop session_key session_init session_step filtered))) 0 n)"
    by (simp add: computeTopSessions_def Let_def filtered_def cmp_def n_def)
  also have "\<dots> = js_slice (js_sort cmp' (map session_out
          (map_values (group_loop session_key session_init session_step filtered)))) 0 n"
  proof -
    have "map session_out (js_sort cmp xs) = js_sort cmp' (map session_out xs)" for xs
      by (rule js_sort_map) (simp add: cmp_def cmp'_def s_cost_session_out)
    then show ?thesis by (simp only: js_slice_map)
  qed
  also have "\<dots> = js_slice (ranked_sessions events from to) 0 n"
    by (simp only: rows) (simp add: ranked_sessions_def Let_def filtered_def ks_def cmp'_def)
  finally show ?thesis by (simp add: n_def)
qed

lemma sorted_desc_js_sort:
  assumes "\<And>a b. cmp a b = fsub (cost b) (cost a)"
  shows "sorted_wrt (\<lambda>a b. cost b \<le> cost a) (js_sort cmp xs)"
proof -
  have "sorted (map (\<lambda>r. - cost r) (js_sort cmp xs))"
    by (rule sorted_js_sort) (simp add: assms fsub_neg_iff)
  then show ?thesis by (simp add: sorted_map)
qed

lemma sorted_wrt_take: "sorted_wrt P xs \<Longrightarrow> sorted_wrt P (take n xs)"
  by (metis append_take_drop_id sorted_wrt_append)

lemma ev_sel [simp]:
  "session_id (ev rid m sid ts c) = sid" "cost_usd (ev rid m sid ts c) = c"
  "model (ev rid m sid ts c) = m" "occurred_at (ev rid m sid ts c) = ts"
  "request_id (ev rid m sid ts c) = rid" "project_path (ev rid m sid ts c) = None"
  "input_tokens (ev rid m sid ts c) = 1" "output_tokens (ev rid m sid ts c) = 1"
  "cache_creation_tokens (ev rid m sid ts c) = 0" "cache_read_tokens (ev rid m sid ts c) = 0"
  "provider (ev rid m sid ts c) = ''anthropic''"
  by (simp_all add: ev_def)

lemma session_key_ev: "session_key (ev rid m (Some (c # cs)) ts x) = c # cs"
  by (simp add: session_key_def truthy_def)

lemma s_cost_usd_summary_single: "s_cost_usd (session_summary [e]) = fl (cost_usd e)"
  by (simp add: session_summary_def fadd_def)

lemma ranked_three_sessions:
  "ranked_sessions three_sessions None None =
     [session_summary [ev ''r3'' ''claude-opus-4-6'' (Some ''s30'') ''2024-01-01T12:00:00.000Z'' 30],
      session_summary [ev ''r2'' ''claude-opus-4-6'' (Some ''s20'') ''2024-01-01T11:00:00.000Z'' 20],
      session_summary [ev ''r1'' ''claude-opus-4-6'' (Some ''s10'') ''2024-01-01T10:00:00.000Z'' 10]]"
  by (simp add: ranked_sessions_def filterByDate_absent three_sessions_def session_key_ev
        first_occ_def group_of_def js_sort_def s_cost_usd_summary_single fsub_def fl_numeral
        fl_minus)

text \<open>
  C9 (as amended). The top-sessions query returns \<open>ranked.slice(0, n)\<close>, where \<open>n\<close> is
  the limit (20 when none is given) and \<open>ranked\<close> holds one summary per session key
  (events without a session id under the key \<open>unknown\<close>), each with the request count, the
  token sums and the cost sum (binary64 sums in the order of the events), the earliest and
  latest \<open>occurred_at\<close> and the comma-joined distinct models of the session's events,
  ranked by descending cost. For \<open>n \<ge> 0\<close> these are the first \<open>n\<close> summaries, so at most
  \<open>n\<close> rows come back; for \<open>n < 0\<close> they are all but the last \<open>-n\<close> summaries. In
  both cases the rows are in descending order of cost.
\<close>

theorem computeTopSessions_spec:
  "computeTopSessions events from to limit_arg =
      js_slice (ranked_sessions events from to) 0 (or_default limit_arg 20) \<and>
    (0 \<le> or_default limit_arg 20 \<longrightarrow>
       computeTopSessions events from to limit_arg =
         take (nat (or_default limit_arg 20)) (ranked_sessions events from to) \<and>
       length (computeTopSessions events from to limit_arg) \<le> nat (or_default limit_arg 20)) \<and>
    (or_default limit_arg 20 < 0 \<longrightarrow>
       computeTopSessions events from to limit_arg =
         take (length (ranked_sessions events from to) - nat (- or_default limit_arg 20))
           (ranked_sessions events from to)) \<and>
    sorted_wrt (\<lambda>a b. s_cost_usd b \<le> s_cost_usd a) (computeTopSessions events from to limit_arg) \<and>
    sorted_wrt (\<lambda>a b. s_cost_usd b \<le> s_cost_usd a) (ranked_sessions events from to) \<and>
    set (ranked_sessions events from to) =
      (\<lambda>k. session_summary (group_of session_key (filterByDate events from to) k)) `
        session_key ` set (filterByDate events from to) \<and>
    length (ranked_sessions events from to) =
      card (session_key ` set (filterByDate events from to))"
proof -
  define filtered where "filtered = filterByDate events from to"
  define n where "n = or_default limit_arg 20"
  define ranked where "ranked = ranked_sessions events from to"
  have eq: "computeTopSessions events from to limit_arg = js_slice ranked 0 n"
    unfolding ranked_def n_def by (rule computeTopSessions_ranked)
  have srt: "sorted_wrt (\<lambda>a b. s_cost_usd b \<le> s_cost_usd a) ranked"
    unfolding ranked_def ranked_sessions_def Let_def by (rule sorted_desc_js_sort) simp
  have "sorted_wrt (\<lambda>a b. s_cost_usd b \<le> s_cost_usd a) (take (length (js_slice ranked 0 n)) ranked)"
    using srt by (rule sorted_wrt_take)
  then have srt': "sorted_wrt (\<lambda>a b. s_cost_usd b \<le> s_cost_usd a) (js_slice ranked 0 n)"
    by (simp only: js_slice_0_take [symmetric])
  have st: "set ranked =
      (\<lambda>k. session_summary (group_of session_key filtered k)) ` session_key ` set filtered"
    by (simp add: ranked_def ranked_sessions_def Let_def set_js_sort set_first_occ filtered_def)
  have "length ranked = length (first_occ (map session_key filtered))"
    by (simp add: ranked_def ranked_sessions_def Let_def length_js_sort filtered_def)
  also have "\<dots> = card (set (first_occ (map session_key filtered)))"
    by (simp only: distinct_card [OF distinct_first_occ])
  finally have len: "length ranked = card (session_key ` set filtered)"
    by (simp add: set_first_occ)
  have pos: "js_slice ranked 0 n = take (nat n) ranked" if "0 \<le> n"
    using that by (rule js_slice_take)
  have neg: "js_slice ranked 0 n = take (length ranked - nat (- n)) ranked" if "n < 0"
    using that by (rule js_slice_drop_last)
  from eq srt srt' st len pos neg show ?thesis
    unfolding filtered_def n_def ranked_def by simp
qed

text \<open>
  The scenario: with limit 1 over three sessions of cost 10, 20 and 30, only the summary
  of the cost-30 session is returned. With limit \<open>-1\<close> the summary of the cost-10 session
  is left out.
\<close>

theorem computeTopSessions_limit_one:
  "0 \<le> or_default (Some 1) 20 \<and>
   computeTopSessions three_sessions None None (Some 1) =
     [\<lparr> s_session_id = Some ''s30'', s_project_path = None, s_requests = 1,
        s_input_tokens = 1, s_output_tokens = 1,
        s_cache_creation_tokens = 0, s_cache_read_tokens = 0, s_cost_usd = 30,
        s_started_at = ''2024-01-01T12:00:00.000Z'', s_ended_at = ''2024-01-01T12:00:00.000Z'',
        s_models = ''claude-opus-4-6'' \<rparr>] \<and>
   or_default (Some (- 1)) 20 < 0 \<and>
   map s_session_id (computeTopSessions three_sessions None None (Some (- 1))) =
     [Some ''s30'', Some ''s20'']"
proof -
  have h: "0 \<le> or_default (Some 1) 20" "or_default (Some (- 1)) 20 < 0"
    by (simp_all add: or_default_def)
  from computeTopSessions_spec [of three_sessions None None "Some 1"] h(1)
  have "computeTopSessions three_sessions None None (Some 1) =
        take (nat (or_default (Some 1) 20)) (ranked_sessions three_sessions None None)"
    by blast
  then have a: "computeTopSessions three_sessions None None (Some 1) =
        take 1 (ranked_sessions three_sessions None None)" by (simp add: or_default_def)
  from computeTopSessions_spec [of three_sessions None None "Some (- 1)"] h(2)
  have "computeTopSessions three_sessions None None (Some (- 1)) =
        take (length (ranked_sessions three_sessions None None) - nat (- or_default (Some (- 1)) 20))
          (ranked_sessions three_sessions None None)"
    by blast
  then have b: "computeTopSessions three_sessions None None (Some (- 1)) =
        take 2 (ranked_sessions three_sessions None None)"
    by (simp add: or_default_def ranked_three_sessions)
  from a b show ?thesis
    by (simp add: ranked_three_sessions session_summary_def first_occ_def fadd_def
          fl_numeral fl_one fl_zero or_default_def)
qed

text \<open>
  C9 (as stated) fails for a negative limit: \<open>slice(0, -1)\<close> leaves out the last row only,
  so over three sessions the query with limit \<open>-1\<close> returns two rows, which is more than
  the limit.
\<close>

theorem computeTopSessions_negative_limit:
  "length (computeTopSessions three_sessions None None (Some (- 1))) = 2 \<and>
   \<not> (\<forall>events from to n.
        int (length (computeTopSessions events from to (Some n))) \<le> n)"
proof -
  have len: "length (computeTopSessions three_sessions None None (Some (- 1))) = 2"
    by (simp add: computeTopSessions_ranked or_default_def js_slice_drop_last
          ranked_three_sessions)
  have "\<not> int (length (computeTopSessions three_sessions None None (Some (- 1)))) \<le> - 1"
    by (simp add: len)
  then have "\<not> (\<forall>events from to n.
        int (length (computeTopSessions events from to (Some n))) \<le> n)"
    by blast
  with len show ?thesis by simp
qed

section \<open>Properties of the paginated listing\<close>

lemma js_slice_nat: "js_slice xs (int s) (int s + int m) = take m (drop s xs)"
proof (cases "s \<le> length xs")
  case True
  show ?thesis
  proof (cases "s + m \<le> length xs")
    case True
    with \<open>s \<le> length xs\<close> show ?thesis by (simp add: js_slice_def Let_def min_def)
  next
    case False
    with \<open>s \<le> length xs\<close> have "nat (int (length xs) - int s) = length xs - s" by simp
    with False \<open>s \<le> length xs\<close> show ?thesis by (simp add: js_slice_def Let_def min_def)
  qed
next
  case False
  then show ?thesis by (simp add: js_slice_def Let_def min_def)
qed

lemma length_js_slice:
  assumes "0 \<le> start" "0 \<le> n"
  shows "int (length (js_slice xs start (start + n))) = max 0 (min n (int (length xs) - start))"
proof -
  from assms obtain s m where sm: "start = int s" "n = int m"
    by (metis nonneg_int_cases)
  have "int (length (js_slice xs start (start + n))) = int (min m (length xs - s))"
    by (simp add: sm js_slice_nat min.commute)
  also have "\<dots> = max 0 (min n (int (length xs) - start))"
    unfolding sm min_def max_def by auto
  finally show ?thesis .
qed

lemma computeEvents_total:
  "total (computeEvents lc events q) = length (filter (passes q) events)"
proof -
  have "filter (passes q) events =
    (let f = events;
         f = (if truthy (q_from q) then filter (\<lambda>e. occurred_at e \<ge> the (q_from q)) f else f);
         f = (if truthy (q_to q)
               then filter (\<lambda>e. occurred_at e \<le> the (q_to q) @ ''T23:59:59'') f else f);
         f = (if truthy (q_model q) then filter (\<lambda>e. model e = the (q_model q)) f else f);
         f = (if truthy (q_provider q)
               then filter (\<lambda>e. provider e = the (q_provider q)) f else f);
         f = (if truthy (q_session_id q)
               then filter (\<lambda>e. session_id e = q_session_id q) f else f)
     in f)"
    by (auto simp: passes_def Let_def intro: filter_cong)
  then show ?thesis
    by (simp add: computeEvents_def Let_def length_js_sort)
qed

lemma computeEvents_rows_length:
  assumes "1 \<le> or_default (q_page q) 1" "1 \<le> or_default (q_limit q) 50"
  shows "int (length (rows (computeEvents lc events q))) =
     max 0 (min (or_default (q_limit q) 50)
       (int (total (computeEvents lc events q))
         - (or_default (q_page q) 1 - 1) * or_default (q_limit q) 50))"
proof -
  define p where "p = or_default (q_page q) 1"
  define l where "l = or_default (q_limit q) 50"
  have off: "0 \<le> (p - 1) * l" using assms by (simp add: p_def l_def)
  have l0: "0 \<le> l" using assms by (simp add: l_def)
  obtain f where rows: "rows (computeEvents lc events q) = js_slice f ((p - 1) * l) ((p - 1) * l + l)"
    and tot: "total (computeEvents lc events q) = length f"
    by (simp add: computeEvents_def Let_def p_def l_def)
  show ?thesis
    unfolding rows tot p_def [symmetric] l_def [symmetric]
    by (rule length_js_slice [OF off l0])
qed

text \<open>
  C6 (as amended). For a page \<open>p \<ge> 1\<close> and a page size \<open>limit \<ge> 1\<close>, \<open>total\<close> is the
  number of events that pass the filters, the page holds
  \<open>max(0, min(limit, total - offset))\<close> rows with \<open>offset = (p - 1) * limit\<close> (the formula of
  the claim while \<open>offset \<le> total\<close>, and no row on a page beyond the last), and \<open>pages\<close>
  is \<open>ceil(total / limit)\<close>.
\<close>

theorem computeEvents_page:
  assumes "1 \<le> or_default (q_page q) 1" "1 \<le> or_default (q_limit q) 50"
  shows "total (computeEvents localeCompare events q) = length (filter (passes q) events) \<and>
    int (length (rows (computeEvents localeCompare events q))) =
      max 0 (min (or_default (q_limit q) 50)
        (int (total (computeEvents localeCompare events q))
           - (or_default (q_page q) 1 - 1) * or_default (q_limit q) 50)) \<and>
    pages (computeEvents localeCompare events q) =
      Some \<lceil>rat_of_nat (total (computeEvents localeCompare events q))
              / rat_of_int (or_default (q_limit q) 50)\<rceil>"
proof -
  have "pages (computeEvents localeCompare events q) =
      Some \<lceil>rat_of_nat (total (computeEvents localeCompare events q))
              / rat_of_int (or_default (q_limit q) 50)\<rceil>"
    using assms(2) by (simp add: computeEvents_def Let_def)
  with computeEvents_total [of localeCompare events q]
       computeEvents_rows_length [OF assms, of localeCompare events]
  show ?thesis by simp
qed

lemma page3_fields:
  "page (computeEvents lc events (no_query \<lparr> q_page := Some 3, q_limit := Some 2 \<rparr>)) = 3"
  "limit (computeEvents lc events (no_query \<lparr> q_page := Some 3, q_limit := Some 2 \<rparr>)) = 2"
  by (simp_all add: computeEvents_def Let_def no_query_def or_default_def)

lemma passes_no_query: "passes (no_query \<lparr> q_page := p, q_limit := l \<rparr>) e"
  by (simp add: passes_def no_query_def truthy_def)

text \<open>
  C6 (as stated) fails on a page beyond the last: with three events, page 3 and limit 2
  the offset is 4, the page is empty, and \<open>min(limit, total - offset)\<close> is \<open>-1\<close>.
\<close>

theorem computeEvents_page_beyond_last:
  "\<not> (\<forall>localeCompare events q.
        int (length (rows (computeEvents localeCompare events q))) =
          min (limit (computeEvents localeCompare events q))
            (int (total (computeEvents localeCompare events q))
               - (page (computeEvents localeCompare events q) - 1)
                 * limit (computeEvents localeCompare events q)))"
proof
  define q where "q = no_query \<lparr> q_page := Some 3, q_limit := Some 2 \<rparr>"
  define r where "r = computeEvents (\<lambda>a b. 0) three_sessions q"
  assume "\<forall>localeCompare events q.
        int (length (rows (computeEvents localeCompare events q))) =
          min (limit (computeEvents localeCompare events q))
            (int (total (computeEvents localeCompare events q))
               - (page (computeEvents localeCompare events q) - 1)
                 * limit (computeEvents localeCompare events q))"
  then have claim: "int (length (rows r)) = min (limit r) (int (total r) - (page r - 1) * limit r)"
    unfolding r_def by blast
  have t: "total r = 3"
    by (simp add: r_def q_def computeEvents_total passes_no_query three_sessions_def)
  have pl: "page r = 3" "limit r = 2" by (simp_all add: r_def q_def page3_fields)
  have "1 \<le> or_default (q_page q) 1" "1 \<le> or_default (q_limit q) 50"
    by (simp_all add: q_def or_default_def no_query_def)
  from computeEvents_rows_length [OF this, of "\<lambda>a b. 0" three_sessions]
  have "int (length (rows r)) = 0"
    using t by (simp add: r_def [symmetric]) (simp add: q_def or_default_def no_query_def)
  with claim t pl show False by simp
qed

theorem computeEvents_page_witness:
  "1 \<le> or_default (q_page (no_query \<lparr> q_page := Some 2, q_limit := Some 2 \<rparr>)) 1 \<and>
   1 \<le> or_default (q_limit (no_query \<lparr> q_page := Some 2, q_limit := Some 2 \<rparr>)) 50 \<and>
   total (computeEvents (\<lambda>a b. 0) three_sessions
            (no_query \<lparr> q_page := Some 2, q_limit := Some 2 \<rparr>)) = 3 \<and>
   length (rows (computeEvents (\<lambda>a b. 0) three_sessions
            (no_query \<lparr> q_page := Some 2, q_limit := Some 2 \<rparr>))) = 1 \<and>
   pages (computeEvents (\<lambda>a b. 0) three_sessions
            (no_query \<lparr> q_page := Some 2, q_limit := Some 2 \<rparr>)) = Some 2"
proof -
  define q where "q = no_query \<lparr> q_page := Some 2, q_limit := Some 2 \<rparr>"
  have h: "1 \<le> or_default (q_page q) 1" "1 \<le> or_default (q_limit q) 50"
    by (simp_all add: q_def or_default_def no_query_def)
  have f: "filter (passes q) three_sessions = three_sessions"
    by (simp add: q_def passes_no_query)
  have v: "or_default (q_page q) 1 = 2" "or_default (q_limit q) 50 = 2"
    by (simp_all add: q_def or_default_def no_query_def)
  have len: "length three_sessions = 3" by (simp add: three_sessions_def)
  have c: "\<lceil>(3::rat) / 2\<rceil> = 2" by (rule ceiling_unique) simp_all
  define r where "r = computeEvents (\<lambda>a b. 0) three_sessions q"
  from computeEvents_page [OF h, of "\<lambda>a b. 0" three_sessions]
  have t: "total r = 3"
    and l: "int (length (rows r)) = max 0 (min 2 (int (total r) - (2 - 1) * 2))"
    and p: "pages r = Some \<lceil>rat_of_nat (total r) / 2\<rceil>"
    unfolding f v len r_def by simp_all
  from l have "length (rows r) = 1" unfolding t by simp
  moreover from p have "pages r = Some 2" unfolding t using c by simp
  ultimately show ?thesis using h t unfolding r_def q_def by simp
qed

section \<open>Properties of the overview\<close>

lemma on_grid_iff: "on_grid j x \<longleftrightarrow> (\<exists>n::nat. x = of_nat n * 2 powi j)"
proof
  assume g: "on_grid j x"
  define z where "z = \<lfloor>x / 2 powi j\<rfloor>"
  from g have x0: "0 \<le> x" and eq: "x / 2 powi j = of_int z" by (simp_all add: on_grid_def z_def)
  from x0 have "0 \<le> x / 2 powi j" by simp
  then have "0 \<le> z" by (simp add: z_def)
  then obtain n where n: "z = int n" by (metis nonneg_int_cases)
  from eq have "x = of_int z * 2 powi j" by (simp add: field_simps)
  then have "x = of_nat n * 2 powi j" by (simp add: n)
  then show "\<exists>n::nat. x = of_nat n * 2 powi j" ..
next
  assume "\<exists>n::nat. x = of_nat n * 2 powi j"
  then obtain n :: nat where "x = of_nat n * 2 powi j" ..
  then show "on_grid j x" by (simp add: on_grid_def)
qed

lemma on_grid_zero: "on_grid j 0"
  by (simp add: on_grid_def)

lemma on_grid_nonneg: "on_grid j x \<Longrightarrow> 0 \<le> x"
  by (simp add: on_grid_def)

lemma on_grid_add: "on_grid j x \<Longrightarrow> on_grid j y \<Longrightarrow> on_grid j (x + y)"
proof -
  assume "on_grid j x" "on_grid j y"
  then obtain n m :: nat where "x = of_nat n * 2 powi j" "y = of_nat m * 2 powi j"
    by (auto simp: on_grid_iff)
  then have "x + y = of_nat (n + m) * 2 powi j" by (simp add: algebra_simps)
  then show ?thesis unfolding on_grid_iff ..
qed

lemma on_grid_sum_list: "list_all (on_grid j) xs \<Longrightarrow> on_grid j (sum_list xs)"
  by (induction xs) (simp_all add: on_grid_zero on_grid_add)

lemma sum_list_grid_nonneg: "list_all (on_grid j) xs \<Longrightarrow> 0 \<le> sum_list xs"
  by (rule on_grid_nonneg [OF on_grid_sum_list])

lemma fl_grid:
  assumes "on_grid j x" "x \<le> 2 ^ 53 * 2 powi j"
  shows "fl x = x"
proof -
  from assms(1) obtain n :: nat where n: "x = of_nat n * 2 powi j" by (auto simp: on_grid_iff)
  show ?thesis
  proof (cases "n = 0")
    case True
    then show ?thesis by (simp add: n fl_zero)
  next
    case False
    from assms(2) have "rat_of_nat n \<le> 2 ^ 53" by (simp add: n)
    then have "rat_of_nat n \<le> rat_of_nat (2 ^ 53)" by simp
    then have "n \<le> 2 ^ 53" by (simp only: of_nat_le_iff)
    then have "int n \<le> 2 ^ 53" by (metis of_nat_le_iff of_nat_numeral of_nat_power)
    with False fl_repr [of "int n" j] show ?thesis by (simp add: n)
  qed
qed

lemma foldl_fadd_exact:
  "on_grid j a \<Longrightarrow> list_all (on_grid j) xs \<Longrightarrow> a + sum_list xs \<le> 2 ^ 53 * 2 powi j \<Longrightarrow>
   foldl fadd a xs = a + sum_list xs"
proof (induction xs arbitrary: a)
  case Nil
  then show ?case by simp
next
  case (Cons x xs)
  from Cons.prems have gx: "on_grid j x" and gxs: "list_all (on_grid j) xs" by simp_all
  have g: "on_grid j (a + x)" by (rule on_grid_add [OF Cons.prems(1) gx])
  from sum_list_grid_nonneg [OF gxs] Cons.prems(3) have "a + x \<le> 2 ^ 53 * 2 powi j" by simp
  from fl_grid [OF g this] have e: "fadd a x = a + x" by (simp add: fadd_def)
  from Cons.prems(3) have "(a + x) + sum_list xs \<le> 2 ^ 53 * 2 powi j" by (simp add: add.assoc)
  from Cons.IH [OF g gxs this] show ?case by (simp add: e add.assoc)
qed

lemma sum_list_filter_le:
  "list_all (on_grid j) (map c es) \<Longrightarrow> sum_list (map c (filter P es)) \<le> sum_list (map c es)"
proof (induction es)
  case Nil
  then show ?case by simp
next
  case (Cons e es)
  from Cons.prems have "on_grid j (c e)" and rest: "list_all (on_grid j) (map c es)" by simp_all
  then have "0 \<le> c e" by (simp add: on_grid_nonneg)
  with Cons.IH [OF rest] show ?case by (auto intro: add_increasing)
qed

lemma sum_partition:
  fixes c :: "'e \<Rightarrow> rat"
  assumes "finite M"
  shows "f ` set es \<subseteq> M \<Longrightarrow>
    (\<Sum>k\<in>M. sum_list (map c (filter (\<lambda>e. f e = k) es))) = sum_list (map c es)"
proof (induction es)
  case Nil
  then show ?case by simp
next
  case (Cons e es)
  then have in_M: "f e \<in> M" and sub: "f ` set es \<subseteq> M" by simp_all
  have "(\<Sum>k\<in>M. sum_list (map c (filter (\<lambda>x. f x = k) (e # es)))) =
        (\<Sum>k\<in>M. (if f e = k then c e else 0) + sum_list (map c (filter (\<lambda>x. f x = k) es)))"
    by (rule sum.cong) simp_all
  also have "\<dots> = (\<Sum>k\<in>M. if f e = k then c e else 0)
                + (\<Sum>k\<in>M. sum_list (map c (filter (\<lambda>x. f x = k) es)))"
    by (rule sum.distrib)
  also have "(\<Sum>k\<in>M. if f e = k then c e else 0) = c e"
    using assms in_M by simp
  finally show ?case using Cons.IH [OF sub] by simp
qed

lemma sum_list_js_insert:
  fixes f :: "'a \<Rightarrow> rat"
  shows "sum_list (map f (js_insert cmp x ys)) = f x + sum_list (map f ys)"
  by (induction ys) simp_all

lemma sum_list_js_sort:
  fixes f :: "'a \<Rightarrow> rat"
  shows "sum_list (map f (js_sort cmp xs)) = sum_list (map f xs)"
  by (induction xs rule: rev_induct) (simp_all add: js_sort_Nil js_sort_snoc sum_list_js_insert)

lemma distinct_map_js_insert:
  "distinct (map f (js_insert cmp x ys)) \<longleftrightarrow> f x \<notin> f ` set ys \<and> distinct (map f ys)"
  by (induction ys) (auto simp: set_js_insert)

lemma distinct_map_js_sort: "distinct (map f (js_sort cmp xs)) \<longleftrightarrow> distinct (map f xs)"
  by (induction xs rule: rev_induct)
     (auto simp: js_sort_Nil js_sort_snoc distinct_map_js_insert set_js_sort)

lemma foldl_model_step:
  "foldl model_step m G =
     m \<lparr> m_requests := m_requests m + length G,
         m_input_tokens := foldl fadd (m_input_tokens m) (map (\<lambda>e. of_nat (input_tokens e)) G),
         m_output_tokens := foldl fadd (m_output_tokens m) (map (\<lambda>e. of_nat (output_tokens e)) G),
         m_cache_creation_tokens :=
           foldl fadd (m_cache_creation_tokens m) (map (\<lambda>e. of_nat (cache_creation_tokens e)) G),
         m_cache_read_tokens := foldl fadd (m_cache_read_tokens m) (map (\<lambda>e. of_nat (cache_read_tokens e)) G),
         m_cost_usd := foldl fadd (m_cost_usd m) (map cost_usd G) \<rparr>"
  by (induction G arbitrary: m) (simp_all add: model_step_def)

lemma foldl_totals_step:
  "foldl totals_step acc G =
     \<lparr> t_total_requests = t_total_requests acc + length G,
       t_input_tokens = foldl fadd (t_input_tokens acc) (map (\<lambda>e. of_nat (input_tokens e)) G),
       t_output_tokens = foldl fadd (t_output_tokens acc) (map (\<lambda>e. of_nat (output_tokens e)) G),
       t_cache_creation_tokens =
         foldl fadd (t_cache_creation_tokens acc) (map (\<lambda>e. of_nat (cache_creation_tokens e)) G),
       t_cache_read_tokens = foldl fadd (t_cache_read_tokens acc) (map (\<lambda>e. of_nat (cache_read_tokens e)) G),
       t_cost_usd = foldl fadd (t_cost_usd acc) (map cost_usd G) \<rparr>"
  by (induction G arbitrary: acc) (simp_all add: totals_step_def)

lemma totals_cost:
  "t_cost_usd (totals (computeOverview events from to)) =
     foldl fadd 0 (map cost_usd (filterByDate events from to))"
  by (simp add: computeOverview_def Let_def foldl_totals_step totals_init_def)

lemma model_row_model:
  assumes "k \<in> model ` set es"
  shows "m_model (group_row model model_init model_step es k) = k"
proof -
  from group_of_nonempty [OF assms] have ne: "group_of model es k \<noteq> []" .
  then have "hd (group_of model es k) \<in> set (group_of model es k)" by simp
  then have "model (hd (group_of model es k)) = k" by (simp add: group_of_def)
  then show ?thesis by (simp add: group_row_def foldl_model_step model_init_def)
qed

lemma model_row_cost:
  "m_cost_usd (group_row model model_init model_step es k) =
     foldl fadd 0 (map cost_usd (group_of model es k))"
  by (simp add: group_row_def foldl_model_step model_init_def)

lemma byModel_eq:
  "byModel (computeOverview events from to) =
     js_sort (\<lambda>a b. fsub (m_cost_usd b) (m_cost_usd a))
       (map (group_row model model_init model_step (filterByDate events from to))
          (first_occ (map model (filterByDate events from to))))"
  by (simp add: computeOverview_def Let_def group_loop_spec group_spec_def map_values_def
        comp_def)

lemma byModel_models:
  "map m_model (map (group_row model model_init model_step es) (first_occ (map model es)))
     = first_occ (map model es)"
proof -
  have "map (\<lambda>k. m_model (group_row model model_init model_step es k)) (first_occ (map model es))
        = map (\<lambda>k. k) (first_occ (map model es))"
    by (rule map_cong [OF refl]) (simp add: set_first_occ model_row_model)
  then show ?thesis by (simp add: comp_def)
qed

lemma byModel_exact:
  assumes ex: "exact_costs j (filterByDate events from to)"
  shows "byModel_cost_sum (byModel (computeOverview events from to)) =
         t_cost_usd (totals (computeOverview events from to))"
proof -
  define F where "F = filterByDate events from to"
  define ks where "ks = first_occ (map model F)"
  define g where "g = (\<lambda>k. sum_list (map cost_usd (filter (\<lambda>e. model e = k) F)))"
  define B where "B = byModel (computeOverview events from to)"
  define S where "S = sum_list (map cost_usd F)"
  from ex have grid: "list_all (on_grid j) (map cost_usd F)" and bound: "S \<le> 2 ^ 53 * 2 powi j"
    by (simp_all add: exact_costs_def F_def S_def list_all_iff)
  have tot: "t_cost_usd (totals (computeOverview events from to)) = S"
    using foldl_fadd_exact [OF on_grid_zero grid] bound
    by (simp add: totals_cost F_def [symmetric] S_def)
  have row: "m_cost_usd (group_row model model_init model_step F k) = g k" for k
  proof -
    have g1: "list_all (on_grid j) (map cost_usd (filter (\<lambda>e. model e = k) F))"
      using grid by (simp add: list_all_iff)
    have "sum_list (map cost_usd (filter (\<lambda>e. model e = k) F)) \<le> S"
      unfolding S_def by (rule sum_list_filter_le [OF grid])
    with bound have "0 + sum_list (map cost_usd (filter (\<lambda>e. model e = k) F)) \<le> 2 ^ 53 * 2 powi j"
      by simp
    from foldl_fadd_exact [OF on_grid_zero g1 this] show ?thesis
      by (simp add: model_row_cost group_of_def g_def)
  qed
  have gk: "on_grid j (g k)" for k
    unfolding g_def using grid by (intro on_grid_sum_list) (simp add: list_all_iff)
  have B: "B = js_sort (\<lambda>a b. fsub (m_cost_usd b) (m_cost_usd a))
                 (map (group_row model model_init model_step F) ks)"
    by (simp add: B_def byModel_eq F_def ks_def)
  have "sum_list (map m_cost_usd B) = sum_list (map g ks)"
    by (simp add: B sum_list_js_sort comp_def row)
  also have "\<dots> = sum g (set ks)"
    by (rule sum_list_distinct_conv_sum_set) (simp add: ks_def distinct_first_occ)
  also have "\<dots> = S"
    unfolding g_def S_def by (rule sum_partition) (simp_all add: ks_def set_first_occ)
  finally have sumB: "sum_list (map m_cost_usd B) = S" .
  have gridB: "list_all (on_grid j) (map m_cost_usd B)"
    by (auto simp: list_all_iff B set_js_sort row gk)
  from sumB bound have "0 + sum_list (map m_cost_usd B) \<le> 2 ^ 53 * 2 powi j" by simp
  from foldl_fadd_exact [OF on_grid_zero gridB this] sumB
  have "byModel_cost_sum B = S" by (simp add: byModel_cost_sum_def)
  with tot show ?thesis by (simp add: B_def)
qed

text \<open>
  C7 (as amended). For every event collection and date range the \<open>byModel\<close> rows are
  sorted descending by cost, there is one row per model of the filtered events, each
  row's cost is the binary64 sum, in event order, of the costs of its model's events, and
  \<open>totals.cost_usd\<close> is the binary64 sum, in event order, of the costs of all filtered
  events. The sum of the rows' costs equals \<open>totals.cost_usd\<close> when no addition rounds:
  when the costs are whole multiples of one power of two and their total stays within
  53 bits of that unit.
\<close>

theorem computeOverview_consistent:
  "sorted_wrt (\<lambda>a b. m_cost_usd b \<le> m_cost_usd a) (byModel (computeOverview events from to)) \<and>
   distinct (map m_model (byModel (computeOverview events from to))) \<and>
   set (map m_model (byModel (computeOverview events from to))) =
     model ` set (filterByDate events from to) \<and>
   (\<forall>r \<in> set (byModel (computeOverview events from to)).
      m_cost_usd r =
        foldl fadd 0 (map cost_usd (group_of model (filterByDate events from to) (m_model r)))) \<and>
   t_cost_usd (totals (computeOverview events from to)) =
     foldl fadd 0 (map cost_usd (filterByDate events from to)) \<and>
   (exact_costs j (filterByDate events from to) \<longrightarrow>
      byModel_cost_sum (byModel (computeOverview events from to)) =
        t_cost_usd (totals (computeOverview events from to)))"
proof -
  define F where "F = filterByDate events from to"
  define ks where "ks = first_occ (map model F)"
  define B where "B = byModel (computeOverview events from to)"
  have B: "B = js_sort (\<lambda>a b. fsub (m_cost_usd b) (m_cost_usd a))
                 (map (group_row model model_init model_step F) ks)"
    by (simp add: B_def byModel_eq F_def ks_def)
  have srt: "sorted_wrt (\<lambda>a b. m_cost_usd b \<le> m_cost_usd a) B"
    unfolding B by (rule sorted_desc_js_sort) simp
  have models: "map m_model (map (group_row model model_init model_step F) ks) = ks"
    unfolding ks_def by (rule byModel_models)
  have dist: "distinct (map m_model B)"
    by (simp only: B distinct_map_js_sort models) (simp add: ks_def distinct_first_occ)
  have "set (map m_model B) = set (map m_model (map (group_row model model_init model_step F) ks))"
    by (simp add: B set_js_sort image_image)
  then have st: "set (map m_model B) = model ` set F"
    by (simp only: models) (simp add: ks_def set_first_occ)
  have rows: "\<forall>r \<in> set B. m_cost_usd r = foldl fadd 0 (map cost_usd (group_of model F (m_model r)))"
  proof
    fix r assume "r \<in> set B"
    then obtain k where k: "k \<in> set ks" and r: "r = group_row model model_init model_step F k"
      by (auto simp: B set_js_sort)
    from k have "k \<in> model ` set F" by (simp add: ks_def set_first_occ)
    then have "m_model r = k" by (simp add: r model_row_model)
    then show "m_cost_usd r = foldl fadd 0 (map cost_usd (group_of model F (m_model r)))"
      by (simp add: r model_row_cost)
  qed
  from srt dist st rows show ?thesis
    by (simp add: B_def F_def totals_cost byModel_exact)
qed

lemma three_events_totals:
  "t_cost_usd (totals (computeOverview three_events None None)) = 1351079888211149 / 2251799813685248"
  by code_simp

lemma three_events_rows:
  "map m_cost_usd (byModel (computeOverview three_events None None)) =
     [1 / 2, 3602879701896397 / 36028797018963968]"
  by code_simp

lemma three_events_sum:
  "byModel_cost_sum (byModel (computeOverview three_events None None)) =
     5404319552844595 / 9007199254740992"
  by code_simp

theorem computeOverview_consistent_witness:
  "exact_costs (- 3) (filterByDate dyadic_events None None) \<and>
   map m_model (byModel (computeOverview dyadic_events None None)) =
     [''claude-opus-4-6'', ''claude-sonnet-4-6''] \<and>
   t_cost_usd (totals (computeOverview dyadic_events None None)) = 0.875 \<and>
   byModel_cost_sum (byModel (computeOverview dyadic_events None None)) =
     t_cost_usd (totals (computeOverview dyadic_events None None))"
proof -
  have h: "exact_costs (- 3) (filterByDate dyadic_events None None)" by code_simp
  have m: "map m_model (byModel (computeOverview dyadic_events None None)) =
     [''claude-opus-4-6'', ''claude-sonnet-4-6'']" by code_simp
  have t: "foldl fadd 0 (map cost_usd (filterByDate dyadic_events None None)) = 0.875"
    by code_simp
  from computeOverview_consistent [of dyadic_events None None "- 3"] h m t
  show ?thesis by simp
qed

text \<open>The costs of the three requests are costs that \<open>computeCostUSD\<close> returns.\<close>

lemma fl_fiftieth: "fl (1 / 50) = 5764607523034235 / 288230376151711744"
  by code_simp

lemma fl_two_25th: "fl (2 / 25) = 5764607523034235 / 72057594037927936"
  by code_simp

lemma fl_tenth: "fl (1 / 10) = 3602879701896397 / 36028797018963968"
  by code_simp

lemma fl_two_fifths: "fl (2 / 5) = 3602879701896397 / 9007199254740992"
  by code_simp

lemma fmul_fiftieth: "fl (28823037615171175 / 288230376151711744) = 3602879701896397 / 36028797018963968"
  by code_simp

lemma fmul_two_25th: "fl (28823037615171175 / 72057594037927936) = 3602879701896397 / 9007199254740992"
  by code_simp

lemma lookupModel_opus_4_6:
  "lookupModel ''claude-opus-4-6'' =
     Some (price ''claude-opus-4-6'' ''anthropic'' 5 25 (Some 6.25) (Some 0.5))"
proof -
  have n: "normalise ''claude-opus-4-6'' = ''claude-opus-4-6''" by code_simp
  show ?thesis by (simp add: lookupModel_def n PRICING_def startsWith_def price_def)
qed

lemma lookupModel_opus_4_5:
  "lookupModel ''claude-opus-4-5'' =
     Some (price ''claude-opus-4-5'' ''anthropic'' 5 25 (Some 6.25) (Some 0.5))"
proof -
  have n: "normalise ''claude-opus-4-5'' = ''claude-opus-4-5''" by code_simp
  show ?thesis by (simp add: lookupModel_def n PRICING_def startsWith_def price_def)
qed

lemma input_only_cost:
  "lookupModel m = Some (price pre prov 5 25 (Some 6.25) (Some 0.5)) \<Longrightarrow>
   computeCostUSD m (Some n) (Some 0) (Some 0) (Some 0) = fl (fl (of_nat n / 1000000) * 5)"
  by (simp add: computeCostUSD_def Let_def price_def or0_def rate_or0_def fadd_def fmul_def
        fdiv_def fl_zero fl_numeral fl_idem)

lemma priced_costs:
  "computeCostUSD ''claude-opus-4-6'' (Some 20000) (Some 0) (Some 0) (Some 0) = fl 0.1 \<and>
   computeCostUSD ''claude-opus-4-5'' (Some 20000) (Some 0) (Some 0) (Some 0) = fl 0.1 \<and>
   computeCostUSD ''claude-opus-4-6'' (Some 80000) (Some 0) (Some 0) (Some 0) = fl 0.4"
  by (simp add: input_only_cost [OF lookupModel_opus_4_6] input_only_cost [OF lookupModel_opus_4_5]
        fl_fiftieth fl_two_25th fmul_fiftieth fmul_two_25th fl_tenth fl_two_fifths)

text \<open>
  C7 (as stated) fails in binary64, where addition is not associative: for requests of
  cost 0.1, 0.1 and 0.4, the first and third on one model, \<open>totals.cost_usd\<close> is
  \<open>(0.1 + 0.1) + 0.4 = 0.6000000000000001\<close> while the rows hold \<open>0.1 + 0.4 = 0.5\<close> and
  \<open>0.1\<close>, which sum to \<open>0.6\<close>.
\<close>

theorem byModel_sum_differs:
  "\<not> (\<forall>events from to.
        byModel_cost_sum (byModel (computeOverview events from to)) =
          t_cost_usd (totals (computeOverview events from to)))"
proof
  assume "\<forall>events from to.
        byModel_cost_sum (byModel (computeOverview events from to)) =
          t_cost_usd (totals (computeOverview events from to))"
  then have "byModel_cost_sum (byModel (computeOverview three_events None None)) =
          t_cost_usd (totals (computeOverview three_events None None))" by blast
  then show False by (simp add: three_events_sum three_events_totals)
qed

section \<open>Properties of the ingestion\<close>

lemma find_snoc:
  "find P (xs @ [x]) = (case find P xs of Some y \<Rightarrow> Some y | None \<Rightarrow> if P x then Some x else None)"
  by (induction xs) simp_all

lemma first_with_snoc:
  "first_with r (pre @ [l]) =
     (case first_with r pre of
        Some x \<Rightarrow> Some x
      | None \<Rightarrow> if req_id_of l = Some r then Some l else None)"
  by (simp add: first_with_def find_snoc)

lemma first_with_None: "first_with r pre = None \<longleftrightarrow> (\<forall>l \<in> set pre. req_id_of l \<noteq> Some r)"
  by (auto simp: first_with_def find_None_iff)

lemma first_with_Some_id: "first_with r pre = Some l \<Longrightarrow> req_id_of l = Some r \<and> l \<in> set pre"
  by (auto simp: first_with_def find_Some_iff)

lemma scan_inv_ids:
  "scan_inv pre seen events \<Longrightarrow> e \<in> set events \<Longrightarrow> request_id e \<in> seen"
  by (auto simp: scan_inv_def dest!: first_with_Some_id bspec)

lemma scan_inv_skip:
  assumes "req_id_of l = None" "scan_inv pre seen events"
  shows "scan_inv (pre @ [l]) seen events"
  using assms by (auto simp: scan_inv_def first_with_snoc split: option.splits)

lemma scan_inv_dup:
  assumes "req_id_of l = Some r" "r \<in> seen" "scan_inv pre seen events"
  shows "scan_inv (pre @ [l]) seen events"
proof -
  from assms(2,3) have "first_with r pre \<noteq> None"
    by (auto simp: scan_inv_def first_with_None)
  with assms show ?thesis
    by (auto simp: scan_inv_def first_with_snoc split: option.splits)
qed

lemma scan_inv_bad:
  assumes l: "req_id_of l = Some r" and new: "r \<notin> seen" and bad: "\<not> good_model l"
    and inv: "scan_inv pre seen events"
  shows "scan_inv (pre @ [l]) (insert r seen) events"
proof -
  from new inv have none: "first_with r pre = None"
    by (auto simp: scan_inv_def first_with_None)
  have ids: "\<forall>e \<in> set events. request_id e \<noteq> r"
    using scan_inv_ids [OF inv] new by blast
  show ?thesis
    unfolding scan_inv_def
  proof (intro conjI)
    show "insert r seen = {r'. \<exists>l' \<in> set (pre @ [l]). req_id_of l' = Some r'}"
      using inv l by (auto simp: scan_inv_def)
    show "distinct (map request_id events)" using inv by (simp add: scan_inv_def)
    show "\<forall>e \<in> set events. \<exists>l'. first_with (request_id e) (pre @ [l]) = Some l' \<and> emits l' e"
    proof
      fix e assume e: "e \<in> set events"
      with inv obtain l' where "first_with (request_id e) pre = Some l'" "emits l' e"
        by (auto simp: scan_inv_def)
      then show "\<exists>l'. first_with (request_id e) (pre @ [l]) = Some l' \<and> emits l' e"
        by (simp add: first_with_snoc)
    qed
    show "\<forall>r' l'. first_with r' (pre @ [l]) = Some l' \<and> good_model l' \<longrightarrow>
            r' \<in> request_id ` set events"
    proof (intro allI impI)
      fix r' l' assume a: "first_with r' (pre @ [l]) = Some l' \<and> good_model l'"
      show "r' \<in> request_id ` set events"
      proof (cases "first_with r' pre")
        case None
        with a l bad show ?thesis by (auto simp: first_with_snoc split: if_splits)
      next
        case (Some x)
        with a have "first_with r' pre = Some l'" by (simp add: first_with_snoc)
        with a inv show ?thesis by (auto simp: scan_inv_def)
      qed
    qed
  qed
qed

lemma emits_good: "emits l e \<Longrightarrow> good_model l"
  by (simp add: emits_def)

lemma scan_inv_good:
  assumes l: "req_id_of l = Some r" and new: "r \<notin> seen" and em: "emits l e"
    and id: "request_id e = r" and inv: "scan_inv pre seen events"
  shows "scan_inv (pre @ [l]) (insert r seen) (events @ [e])"
proof -
  from new inv have none: "first_with r pre = None"
    by (auto simp: scan_inv_def first_with_None)
  have ids: "\<forall>e' \<in> set events. request_id e' \<noteq> r"
    using scan_inv_ids [OF inv] new by blast
  show ?thesis
    unfolding scan_inv_def
  proof (intro conjI)
    show "insert r seen = {r'. \<exists>l' \<in> set (pre @ [l]). req_id_of l' = Some r'}"
      using inv l by (auto simp: scan_inv_def)
    show "distinct (map request_id (events @ [e]))"
      using inv ids id by (auto simp: scan_inv_def)
    show "\<forall>e' \<in> set (events @ [e]).
            \<exists>l'. first_with (request_id e') (pre @ [l]) = Some l' \<and> emits l' e'"
    proof
      fix e' assume e': "e' \<in> set (events @ [e])"
      show "\<exists>l'. first_with (request_id e') (pre @ [l]) = Some l' \<and> emits l' e'"
      proof (cases "e' \<in> set events")
        case True
        with inv obtain l' where "first_with (request_id e') pre = Some l'" "emits l' e'"
          by (auto simp: scan_inv_def)
        then show ?thesis by (simp add: first_with_snoc)
      next
        case False
        with e' have "e' = e" by simp
        with none l em id show ?thesis by (simp add: first_with_snoc)
      qed
    qed
    show "\<forall>r' l'. first_with r' (pre @ [l]) = Some l' \<and> good_model l' \<longrightarrow>
            r' \<in> request_id ` set (events @ [e])"
    proof (intro allI impI)
      fix r' l' assume a: "first_with r' (pre @ [l]) = Some l' \<and> good_model l'"
      show "r' \<in> request_id ` set (events @ [e])"
      proof (cases "first_with r' pre")
        case None
        with a l have "r' = r" by (auto simp: first_with_snoc split: if_splits)
        with id show ?thesis by simp
      next
        case (Some x)
        with a have "first_with r' pre = Some l'" by (simp add: first_with_snoc)
        with a inv show ?thesis by (auto simp: scan_inv_def)
      qed
    qed
  qed
qed

lemma req_id_of_simps [simp]:
  "req_id_of Blank = None" "req_id_of Malformed = None" "req_id_of JsonNull = None"
  by (simp_all add: req_id_of_def)

lemma emits_make_event:
  assumes "r_message obj = Some msg" "msg_usage msg = Some u" "truthy (msg_id msg)"
    "truthy (msg_model msg)" "msg_model msg \<noteq> Some ''<synthetic>''"
  shows "emits (Json obj) (make_event now proj lh obj (the (msg_id msg)) (the (msg_model msg)) u)"
  using assms
  by (auto simp: emits_def good_model_def make_event_def Let_def truthy_def split: option.splits)

lemma request_id_make_event [simp]: "request_id (make_event now proj lh obj r m u) = r"
  by (simp add: make_event_def Let_def)

lemma parse_lines_inv:
  "parse_lines en proj ls lh seen events = Inr (seen', events') \<Longrightarrow>
   scan_inv pre seen events \<Longrightarrow> scan_inv (pre @ ls) seen' events'"
proof (induction ls arbitrary: pre lh seen events)
  case Nil
  then show ?case by simp
next
  case (Cons l ls)
  note inv = Cons.prems(2)
  have step: "scan_inv (pre @ l # ls) seen' events'"
    if "parse_lines en proj ls lh1 seen1 events1 = Inr (seen', events')"
      and "scan_inv (pre @ [l]) seen1 events1" for lh1 seen1 events1
    using Cons.IH [OF that] by simp
  show ?case
  proof (cases l)
    case Blank
    with Cons.prems(1) have "parse_lines en proj ls lh seen events = Inr (seen', events')" by simp
    then show ?thesis by (rule step) (simp add: Blank scan_inv_skip inv)
  next
    case Malformed
    with Cons.prems(1) have "parse_lines en proj ls lh seen events = Inr (seen', events')" by simp
    then show ?thesis by (rule step) (simp add: Malformed scan_inv_skip inv)
  next
    case JsonNull
    with Cons.prems(1) show ?thesis by simp
  next
    case (Json obj)
    note p = Cons.prems(1) [unfolded Json]
    show ?thesis
    proof (cases "r_type obj = Some ''user''")
      case True
      then have n: "req_id_of l = None" by (simp add: req_id_of_def Json)
      from p True obtain lh1 where "parse_lines en proj ls lh1 seen events = Inr (seen', events')"
        by (simp add: Let_def)
      then show ?thesis by (rule step) (rule scan_inv_skip [OF n inv])
    next
      case nu: False
      show ?thesis
      proof (cases "r_type obj = Some ''assistant'' \<and> r_message obj \<noteq> None \<and>
                    msg_usage (the (r_message obj)) \<noteq> None \<and> truthy (msg_id (the (r_message obj)))")
        case False
        then have n: "req_id_of l = None"
          by (auto simp: req_id_of_def Json split: option.splits)
        from p nu False have "parse_lines en proj ls lh seen events = Inr (seen', events')"
          by (auto split: option.splits if_splits)
        then show ?thesis by (rule step) (rule scan_inv_skip [OF n inv])
      next
        case True
        then obtain msg usage where as: "r_type obj = Some ''assistant''"
          and msg: "r_message obj = Some msg" and u: "msg_usage msg = Some usage"
          and tid: "truthy (msg_id msg)" by auto
        define r where "r = the (msg_id msg)"
        from tid have idr: "msg_id msg = Some r"
          by (auto simp: truthy_def r_def split: option.splits)
        have rid: "req_id_of l = Some r" using msg u as tid idr by (simp add: req_id_of_def Json)
        show ?thesis
        proof (cases "r \<in> seen")
          case True
          with p nu as msg u tid have "parse_lines en proj ls lh seen events = Inr (seen', events')"
            by (simp add: r_def Let_def)
          then show ?thesis by (rule step) (rule scan_inv_dup [OF rid True inv])
        next
          case new: False
          show ?thesis
          proof (cases "\<not> truthy (msg_model msg) \<or> msg_model msg = Some ''<synthetic>''")
            case True
            then have bad: "\<not> good_model l" using msg by (auto simp: good_model_def Json)
            from p nu as msg u tid new True
            have "parse_lines en proj ls lh (insert r seen) events = Inr (seen', events')"
              by (auto simp: r_def Let_def)
            then show ?thesis by (rule step) (rule scan_inv_bad [OF rid new bad inv])
          next
            case False
            then have gm: "truthy (msg_model msg)" "msg_model msg \<noteq> Some ''<synthetic>''"
              by simp_all
            define e where "e = make_event (clock en (length events)) proj lh obj r
                                  (the (msg_model msg)) usage"
            have em: "emits l e"
              unfolding e_def r_def Json by (rule emits_make_event [OF msg u tid gm])
            have eid: "request_id e = r" by (simp add: e_def)
            from p nu as msg u tid new gm
            have "parse_lines en proj ls lh (insert r seen) (events @ [e]) = Inr (seen', events')"
              by (simp add: r_def Let_def e_def)
            then show ?thesis by (rule step) (rule scan_inv_good [OF rid new em eid inv])
          qed
        qed
      qed
    qed
  qed
qed

lemma parseJSONL_inv:
  assumes "parseJSONL en ent proj seen events = Inr (seen', events')"
    and "d_isFile ent" "endsWith (d_name ent) ''.jsonl''" "scan_inv pre seen events"
  shows "scan_inv (pre @ file_lines ent) seen' events'"
proof (cases "d_lines ent")
  case None
  with assms show ?thesis by (simp add: parseJSONL_def file_lines_def)
next
  case (Some ls)
  with assms(1) have "parse_lines en proj ls None seen events = Inr (seen', events')"
    by (simp add: parseJSONL_def)
  from parse_lines_inv [OF this assms(4)] Some assms(2,3) show ?thesis
    by (simp add: file_lines_def)
qed

lemma load_files_inv:
  "load_files en mp pp ents seen events = Inr (seen', events') \<Longrightarrow>
   scan_inv pre seen events \<Longrightarrow>
   scan_inv (pre @ concat (map file_lines ents)) seen' events'"
proof (induction ents arbitrary: pre seen events)
  case Nil
  then show ?case by simp
next
  case (Cons ent ents)
  show ?case
  proof (cases "\<not> d_isFile ent \<or> \<not> endsWith (d_name ent) ''.jsonl''")
    case True
    then have "file_lines ent = []" by (auto simp: file_lines_def)
    moreover from True Cons.prems(1)
    have "load_files en mp pp ents seen events = Inr (seen', events')" by auto
    ultimately show ?thesis using Cons.IH [OF _ Cons.prems(2)] by simp
  next
    case False
    then have f: "d_isFile ent" "endsWith (d_name ent) ''.jsonl''" by simp_all
    from False Cons.prems(1) obtain proj seen1 events1 where
      p: "parseJSONL en ent proj seen events = Inr (seen1, events1)"
      and l: "load_files en mp pp ents seen1 events1 = Inr (seen', events')"
      by (auto simp: Let_def split: sum.splits)
    from parseJSONL_inv [OF p f Cons.prems(2)]
    have "scan_inv (pre @ file_lines ent) seen1 events1" .
    from Cons.IH [OF l this] show ?thesis by simp
  qed
qed

lemma load_slugs_inv:
  "load_slugs en sds seen events = Inr (seen', events') \<Longrightarrow>
   scan_inv pre seen events \<Longrightarrow>
   scan_inv (pre @ concat (map slug_lines sds)) seen' events'"
proof (induction sds arbitrary: pre seen events)
  case Nil
  then show ?case by simp
next
  case (Cons sd sds)
  show ?case
  proof (cases "sd_entries sd")
    case None
    then have "slug_lines sd = []" by (simp add: slug_lines_def)
    moreover from None Cons.prems(1)
    have "load_slugs en sds seen events = Inr (seen', events')"
      by (simp add: Let_def split: prod.splits)
    ultimately show ?thesis using Cons.IH [OF _ Cons.prems(2)] by simp
  next
    case (Some ents)
    with Cons.prems(1) obtain mp pp seen1 events1 where
      f: "load_files en mp pp ents seen events = Inr (seen1, events1)"
      and l: "load_slugs en sds seen1 events1 = Inr (seen', events')"
      by (auto simp: Let_def split: prod.splits sum.splits)
    from load_files_inv [OF f Cons.prems(2)] Some
    have "scan_inv (pre @ slug_lines sd) seen1 events1" by (simp add: slug_lines_def)
    from Cons.IH [OF l this] show ?thesis by simp
  qed
qed

lemma scan_inv_empty: "scan_inv [] {} []"
  by (simp add: scan_inv_def first_with_def)

lemma collectEvents_inv:
  assumes "collectEvents en fs = Inr events"
  shows "\<exists>seen. scan_inv (all_lines fs) seen events"
proof (cases "claudeDir_exists fs \<and> projectsDir_exists fs")
  case False
  with assms have "events = []" by (auto simp: collectEvents_def split: if_splits)
  moreover from False have "all_lines fs = []" by (auto simp: all_lines_def)
  ultimately show ?thesis using scan_inv_empty by auto
next
  case True
  show ?thesis
  proof (cases "projects fs")
    case None
    with True assms show ?thesis by (simp add: collectEvents_def)
  next
    case (Some ents)
    with True assms obtain seen where
      "load_slugs en (filter sd_isDirectory ents) {} [] = Inr (seen, events)"
      by (auto simp: collectEvents_def split: sum.splits)
    from load_slugs_inv [OF this scan_inv_empty] True Some
    have "scan_inv (all_lines fs) seen events" by (simp add: all_lines_def)
    then show ?thesis ..
  qed
qed

lemma loadAllEvents_Inr:
  "loadAllEvents en fs = Inr evs \<longleftrightarrow>
   (\<exists>pre. collectEvents en fs = Inr pre \<and>
      evs = js_sort (\<lambda>a b. if occurred_at a < occurred_at b then - 1 else 1) pre)"
  by (auto simp: loadAllEvents_def split: sum.splits)

lemma make_event_sel [simp]:
  "occurred_at (make_event now proj lh obj r m u) =
     (if truthy (r_timestamp obj) then the (r_timestamp obj) else now)"
  "model (make_event now proj lh obj r m u) = m"
  by (simp_all add: make_event_def Let_def)

lemma assistant_record_sel [simp]:
  "r_type (assistant_record rid mdl ts) = Some ''assistant''"
  "r_message (assistant_record rid mdl ts) =
     Some \<lparr> msg_id = Some rid, msg_model = mdl, msg_usage = Some usage0, msg_content = None \<rparr>"
  "r_timestamp (assistant_record rid mdl ts) = Some ts"
  by (simp_all add: assistant_record_def)

lemma event_of_sel [simp]:
  "request_id (event_of rid mdl ts) = rid" "model (event_of rid mdl ts) = mdl"
  "ts \<noteq> [] \<Longrightarrow> occurred_at (event_of rid mdl ts) = ts"
  by (simp_all add: event_of_def truthy_def)

lemma collect_one_file:
  "collectEvents env0 (one_file ls) =
     (case parse_lines env0 None ls None {} [] of Inl err \<Rightarrow> Inl err | Inr (seen, events) \<Rightarrow> Inr events)"
  by (simp add: collectEvents_def one_file_def read_index_def parseJSONL_def endsWith_def
        suffix_to_prefix split: sum.splits)

lemma all_lines_one_file: "all_lines (one_file ls) = ls"
  by (simp add: all_lines_def one_file_def slug_lines_def file_lines_def endsWith_def
        suffix_to_prefix)

lemma clock_env0 [simp]: "clock env0 n = ''2024-06-01T00:00:00.000Z''"
  by (simp add: env0_def)

lemma collect_dup:
  "collectEvents env0 (one_file dup_lines) =
     Inr [event_of ''r1'' ''claude-opus-4-6'' ''2024-01-02T10:00:00.000Z'',
          event_of ''r2'' ''claude-opus-4-6'' ''2024-01-01T10:00:00.000Z'',
          event_of ''r3'' ''claude-opus-4-6'' ''2024-01-01T10:00:00.000Z'']"
  by (simp add: collect_one_file dup_lines_def truthy_def event_of_def Let_def)

lemma load_dup:
  "loadAllEvents env0 (one_file dup_lines) =
     Inr [event_of ''r2'' ''claude-opus-4-6'' ''2024-01-01T10:00:00.000Z'',
          event_of ''r3'' ''claude-opus-4-6'' ''2024-01-01T10:00:00.000Z'',
          event_of ''r1'' ''claude-opus-4-6'' ''2024-01-02T10:00:00.000Z'']"
  by (simp add: loadAllEvents_def collect_dup js_sort_def)

lemma load_synthetic: "loadAllEvents env0 (one_file synthetic_lines) = Inr []"
  by (simp add: loadAllEvents_def collect_one_file synthetic_lines_def truthy_def js_sort_def Let_def)





text \<open>
  C4. The collection that \<open>loadAllEvents\<close> returns is sorted ascending by \<open>occurred_at\<close>
  (compared as strings), it holds the events of the scan, and events with one and the same
  \<open>occurred_at\<close> stand in the order in which the scan pushed them.
\<close>

theorem loadAllEvents_sorted_stable:
  assumes "loadAllEvents en fs = Inr evs"
  shows "sorted (map occurred_at evs) \<and>
    (\<exists>pre. collectEvents en fs = Inr pre \<and> length evs = length pre \<and> set evs = set pre \<and>
       (\<forall>t. filter (\<lambda>e. occurred_at e = t) evs = filter (\<lambda>e. occurred_at e = t) pre))"
proof -
  define cmp where
    "cmp = (\<lambda>(a :: event) (b :: event). if occurred_at a < occurred_at b then - 1 else (1 :: rat))"
  from assms obtain pre where c: "collectEvents en fs = Inr pre" and evs: "evs = js_sort cmp pre"
    by (auto simp: loadAllEvents_Inr cmp_def)
  have k: "cmp x y < 0 \<longleftrightarrow> occurred_at x < occurred_at y" for x y
    by (simp add: cmp_def)
  have "sorted (map occurred_at evs)" unfolding evs by (rule sorted_js_sort) (rule k)
  moreover have "filter (\<lambda>e. occurred_at e = t) evs = filter (\<lambda>e. occurred_at e = t) pre" for t
    unfolding evs by (rule filter_js_sort) (rule k)
  ultimately show ?thesis using c by (auto simp: evs length_js_sort set_js_sort)
qed

theorem loadAllEvents_sorted_witness:
  "loadAllEvents env0 (one_file dup_lines) =
     Inr [event_of ''r2'' ''claude-opus-4-6'' ''2024-01-01T10:00:00.000Z'',
          event_of ''r3'' ''claude-opus-4-6'' ''2024-01-01T10:00:00.000Z'',
          event_of ''r1'' ''claude-opus-4-6'' ''2024-01-02T10:00:00.000Z''] \<and>
   collectEvents env0 (one_file dup_lines) =
     Inr [event_of ''r1'' ''claude-opus-4-6'' ''2024-01-02T10:00:00.000Z'',
          event_of ''r2'' ''claude-opus-4-6'' ''2024-01-01T10:00:00.000Z'',
          event_of ''r3'' ''claude-opus-4-6'' ''2024-01-01T10:00:00.000Z''] \<and>
   sorted [''2024-01-01T10:00:00.000Z'', ''2024-01-01T10:00:00.000Z'', ''2024-01-02T10:00:00.000Z'']"
proof -
  from loadAllEvents_sorted_stable [OF load_dup] load_dup collect_dup
  show ?thesis by simp
qed

text \<open>
  C10. A request id is consumed by its first record with usage data even when that record
  emits no event: when the first record of the scan with request id \<open>r\<close> has no model
  or the model \<open><synthetic>\<close>, the returned collection has no event with request id \<open>r\<close>,
  whatever the later records with that id carry.
\<close>

theorem synthetic_first_consumes_id:
  assumes "loadAllEvents en fs = Inr evs"
    and "first_with r (all_lines fs) = Some l" and "\<not> good_model l"
  shows "r \<notin> request_id ` set evs"
proof
  assume "r \<in> request_id ` set evs"
  then obtain e where e: "e \<in> set evs" and r: "request_id e = r" by auto
  from assms(1) obtain pre where c: "collectEvents en fs = Inr pre"
    and evs: "evs = js_sort (\<lambda>a b. if occurred_at a < occurred_at b then - 1 else 1) pre"
    by (auto simp: loadAllEvents_Inr)
  from collectEvents_inv [OF c] obtain seen where inv: "scan_inv (all_lines fs) seen pre" ..
  from e have "e \<in> set pre" by (simp add: evs set_js_sort)
  with inv obtain l' where "first_with (request_id e) (all_lines fs) = Some l'" "emits l' e"
    by (auto simp: scan_inv_def)
  with assms(2) r have "emits l e" by simp
  with assms(3) show False by (simp add: emits_good)
qed

theorem synthetic_first_witness:
  "loadAllEvents env0 (one_file synthetic_lines) = Inr [] \<and>
   first_with ''r1'' (all_lines (one_file synthetic_lines)) =
     Some (Json (assistant_record ''r1'' (Some ''<synthetic>'') ''2024-01-01T10:00:00.000Z'')) \<and>
   \<not> good_model (Json (assistant_record ''r1'' (Some ''<synthetic>'') ''2024-01-01T10:00:00.000Z'')) \<and>
   req_id_of (Json (assistant_record ''r1'' (Some ''claude-opus-4-6'') ''2024-01-01T10:00:01.000Z''))
     = Some ''r1'' \<and>
   good_model (Json (assistant_record ''r1'' (Some ''claude-opus-4-6'') ''2024-01-01T10:00:01.000Z'')) \<and>
   ''r1'' \<notin> request_id ` set ([] :: event list)"
proof -
  have f: "first_with ''r1'' (all_lines (one_file synthetic_lines)) =
     Some (Json (assistant_record ''r1'' (Some ''<synthetic>'') ''2024-01-01T10:00:00.000Z''))"
    by (simp add: all_lines_one_file synthetic_lines_def first_with_def req_id_of_def truthy_def)
  have b: "\<not> good_model (Json (assistant_record ''r1'' (Some ''<synthetic>'')
                                  ''2024-01-01T10:00:00.000Z''))"
    by (simp add: good_model_def)
  have g: "good_model (Json (assistant_record ''r1'' (Some ''claude-opus-4-6'')
                               ''2024-01-01T10:00:01.000Z''))"
    by (simp add: good_model_def truthy_def)
  have i: "req_id_of (Json (assistant_record ''r1'' (Some ''claude-opus-4-6'')
                              ''2024-01-01T10:00:01.000Z'')) = Some ''r1''"
    by (simp add: req_id_of_def truthy_def)
  from synthetic_first_consumes_id [OF load_synthetic f b] f b g i load_synthetic
  show ?thesis by simp
qed

end
